theory Spec2Isabelle
  imports Main
begin

section \<open>Python strings and integers\<close>

text \<open>
  A Python \<open>str\<close> is modelled as a \<open>string\<close>: a list of characters, each read as a
  code point below 256. Python integers are unbounded and are modelled as \<open>int\<close>.
\<close>

definition chr_nl :: char where
  "chr_nl = CHR 0x0A"

definition is_digit :: "char \<Rightarrow> bool" where
  "is_digit c = (c \<in> set ''0123456789'')"

definition is_alpha :: "char \<Rightarrow> bool" where
  "is_alpha c = (c \<in> set ''abcdefghijklmnopqrstuvwxyzABCDEFGHIJKLMNOPQRSTUVWXYZ'')"

definition is_alnum :: "char \<Rightarrow> bool" where
  "is_alnum c = (is_alpha c \<or> is_digit c)"

text \<open>The decimal digits of an integer, with a minus sign when negative.\<close>

definition digit_char :: "nat \<Rightarrow> char" where
  "digit_char d = ''0123456789'' ! d"

fun nat_digits :: "nat \<Rightarrow> string" where
  "nat_digits n = (if n < 10 then [digit_char n] else nat_digits (n div 10) @ [digit_char (n mod 10)])"

declare nat_digits.simps [simp del]

definition decimal :: "int \<Rightarrow> string" where
  "decimal v = (if v < 0 then ''-'' @ nat_digits (nat (- v)) else nat_digits (nat v))"

text \<open>
  CPython refuses a conversion between \<open>int\<close> and \<open>str\<close> that involves more than
  \<open>sys.int_max_str_digits\<close> decimal digits, the sign not counted, and raises ValueError;
  the limit is 4300 by default and the repository does not change it.

  \<open>str(v)\<close>, which an f-string applies to an integer: \<open>None\<close> when the conversion raises.
\<close>

definition int_max_str_digits :: nat where
  "int_max_str_digits = 4300"

definition py_str_int :: "int \<Rightarrow> string option" where
  "py_str_int v =
     (if length (nat_digits (nat \<bar>v\<bar>)) > int_max_str_digits then None else Some (decimal v))"

text \<open>\<open>s.upper()\<close>, on the ASCII letters. The dialects only compare the result with
  the one-letter strings Y, M, W and D, and no other code point has one of these as its
  upper case.\<close>

definition upper_char :: "char \<Rightarrow> char" where
  "upper_char c = (case map_of (zip ''abcdefghijklmnopqrstuvwxyz'' ''ABCDEFGHIJKLMNOPQRSTUVWXYZ'') c of
      Some u \<Rightarrow> u | None \<Rightarrow> c)"

definition py_upper :: "string \<Rightarrow> string" where
  "py_upper s = map upper_char s"

section \<open>Ownership (catalog/types.py)\<close>

record Ownership =
  accountable_owner :: "string option"
  data_specialist :: "string option"
  support_channel :: "string option"
  adop :: "string option"
  ads :: "string option"
  adal :: "string option"

text \<open>Truthiness of an optional string: \<open>None\<close> and the empty string are falsy.\<close>

fun truthy :: "string option \<Rightarrow> bool" where
  "truthy None = False"
| "truthy (Some s) = (s \<noteq> [])"

text \<open>Python's \<open>a or b\<close> on optional strings.\<close>

definition py_or :: "string option \<Rightarrow> string option \<Rightarrow> string option" where
  "py_or a b = (if truthy a then a else b)"

definition merge_with_parent :: "Ownership \<Rightarrow> Ownership \<Rightarrow> Ownership" where
  "merge_with_parent self parent =
     \<lparr> accountable_owner = py_or (accountable_owner self) (accountable_owner parent),
       data_specialist = py_or (data_specialist self) (data_specialist parent),
       support_channel = py_or (support_channel self) (support_channel parent),
       adop = py_or (adop self) (adop parent),
       ads = py_or (ads self) (ads parent),
       adal = py_or (adal self) (adal parent) \<rparr>"

section \<open>Dialects (dialect/snowflake.py, dialect/oracle.py, dialect/rest.py)\<close>

text \<open>The exceptions that a lookback_start of a dialect lets through to its caller.\<close>

datatype dialect_error = OverflowError | ValueError

text \<open>An f-string with one integer field: the text around the formatted integer, or the
  ValueError of the conversion.\<close>

definition fstring :: "string \<Rightarrow> int \<Rightarrow> string \<Rightarrow> dialect_error + string" where
  "fstring before v after =
     (case py_str_int v of None \<Rightarrow> Inl ValueError | Some n \<Rightarrow> Inr (before @ n @ after))"

text \<open>SnowflakeDialect.lookback_start: the unit map with its default.\<close>

definition unit_map :: "string \<Rightarrow> string option" where
  "unit_map = map_of [(''Y'', ''YEAR''), (''M'', ''MONTH''), (''W'', ''WEEK''), (''D'', ''DAY'')]"

definition snowflake_lookback_start :: "int \<Rightarrow> string \<Rightarrow> dialect_error + string" where
  "snowflake_lookback_start v unit =
     (let unit_upper = py_upper unit;
          sql_unit = (case unit_map unit_upper of Some u \<Rightarrow> u | None \<Rightarrow> ''DAY'')
      in fstring (''DATEADD('' @ [CHR 0x27] @ sql_unit @ [CHR 0x27] @ '', -'') v '', CURRENT_DATE())'')"

text \<open>OracleDialect.lookback_start.\<close>

definition oracle_lookback_start :: "int \<Rightarrow> string \<Rightarrow> dialect_error + string" where
  "oracle_lookback_start v unit =
     (let unit_upper = py_upper unit in
      if unit_upper = ''Y'' then fstring ''ADD_MONTHS(SYSDATE, -'' (v * 12) '')''
      else if unit_upper = ''M'' then fstring ''ADD_MONTHS(SYSDATE, -'' v '')''
      else if unit_upper = ''W'' then fstring ''SYSDATE - '' (v * 7) []
      else fstring ''SYSDATE - '' v [])"

text \<open>
  RestDialect.lookback_start computes with \<open>datetime.date\<close>, \<open>datetime.timedelta\<close> and
  \<open>dateutil.relativedelta\<close>. The calendar arithmetic follows the standard library's
  Python implementation of \<open>datetime\<close> (proleptic Gregorian ordinals, day 1 being
  0001-01-01, the last day 9999-12-31 being ordinal 3652059).
\<close>

record date =
  year :: int
  month :: int
  day :: int

definition DAYS_IN_MONTH :: "int \<Rightarrow> int" where
  "DAYS_IN_MONTH m = [- 1, 31, 28, 31, 30, 31, 30, 31, 31, 30, 31, 30, 31] ! nat m"

definition DAYS_BEFORE_MONTH :: "int \<Rightarrow> int" where
  "DAYS_BEFORE_MONTH m = [- 1, 0, 31, 59, 90, 120, 151, 181, 212, 243, 273, 304, 334] ! nat m"

definition is_leap :: "int \<Rightarrow> bool" where
  "is_leap y = (y mod 4 = 0 \<and> (y mod 100 \<noteq> 0 \<or> y mod 400 = 0))"

definition days_before_year :: "int \<Rightarrow> int" where
  "days_before_year y = (let y1 = y - 1 in y1 * 365 + y1 div 4 - y1 div 100 + y1 div 400)"

definition days_in_month :: "int \<Rightarrow> int \<Rightarrow> int" where
  "days_in_month y m = (if m = 2 \<and> is_leap y then 29 else DAYS_IN_MONTH m)"

definition days_before_month :: "int \<Rightarrow> int \<Rightarrow> int" where
  "days_before_month y m = DAYS_BEFORE_MONTH m + (if m > 2 \<and> is_leap y then 1 else 0)"

text \<open>\<open>date.toordinal\<close> and \<open>date.fromordinal\<close>.\<close>

definition toordinal :: "date \<Rightarrow> int" where
  "toordinal d = days_before_year (year d) + days_before_month (year d) (month d) + day d"

definition fromordinal :: "int \<Rightarrow> date" where
  "fromordinal ordinal =
     (let n = ordinal - 1;
          n400 = n div 146097; na = n mod 146097;
          n100 = na div 36524; nb = na mod 36524;
          n4 = nb div 1461; nc = nb mod 1461;
          n1 = nc div 365; nd = nc mod 365;
          y = n400 * 400 + 1 + n100 * 100 + n4 * 4 + n1
      in if n1 = 4 \<or> n100 = 4 then \<lparr> year = y - 1, month = 12, day = 31 \<rparr>
         else
           (let leapyear = (n1 = 3 \<and> (n4 \<noteq> 24 \<or> n100 = 3));
                m = (nd + 50) div 32;
                preceding = DAYS_BEFORE_MONTH m + (if m > 2 \<and> leapyear then 1 else 0)
            in if preceding > nd
               then \<lparr> year = y, month = m - 1,
                      day = nd - (preceding - (DAYS_IN_MONTH (m - 1) + (if m - 1 = 2 \<and> leapyear then 1 else 0))) + 1 \<rparr>
               else \<lparr> year = y, month = m, day = nd - preceding + 1 \<rparr>))"

text \<open>\<open>date.isoformat\<close>: year, month and day, zero-padded to 4, 2 and 2 digits. The year
  of a \<open>date\<close> has at most four digits, far below the limit of the conversion.\<close>

definition zero_pad :: "nat \<Rightarrow> string \<Rightarrow> string" where
  "zero_pad k s = replicate (k - length s) (CHR ''0'') @ s"

definition isoformat :: "date \<Rightarrow> string" where
  "isoformat d = zero_pad 4 (decimal (year d)) @ ''-'' @ zero_pad 2 (decimal (month d))
                 @ ''-'' @ zero_pad 2 (decimal (day d))"

text \<open>\<open>today - timedelta(days=n)\<close>: the timedelta constructor refuses more than 999999999
  days in either direction, and the subtraction refuses a result outside the ordinals
  of \<open>date\<close>.\<close>

definition sub_days :: "date \<Rightarrow> int \<Rightarrow> dialect_error + date" where
  "sub_days today n =
     (if \<bar>n\<bar> > 999999999 then Inl OverflowError
      else let ordinal = toordinal today - n
           in if 0 < ordinal \<and> ordinal \<le> 3652059 then Inr (fromordinal ordinal) else Inl OverflowError)"

text \<open>
  \<open>today - relativedelta(years=ys, months=ms)\<close> of the dateutil package (not part of the
  repository): months beyond 11 carry into the years, the day is clipped to the length
  of the target month, and the new date is made by \<open>date.replace\<close>, which raises
  OverflowError for a year that does not fit a C int (32 bits) and ValueError for any
  other year outside 1..9999. The dialect takes this operation as a parameter; this
  definition is the instance used for evaluation.
\<close>

definition relativedelta_sub :: "date \<Rightarrow> int \<Rightarrow> int \<Rightarrow> dialect_error + date" where
  "relativedelta_sub today ys ms =
     (let s = sgn ms;
          mths = ((ms * s) mod 12) * s;
          yrs = ys + ((ms * s) div 12) * s;
          y0 = year today - yrs;
          m0 = month today - mths;
          y = (if m0 > 12 then y0 + 1 else if m0 < 1 then y0 - 1 else y0);
          m = (if m0 > 12 then m0 - 12 else if m0 < 1 then m0 + 12 else m0);
          d = min (days_in_month y m) (day today)
      in if y < - 2147483648 \<or> 2147483647 < y then Inl OverflowError
         else if 1 \<le> y \<and> y \<le> 9999 then Inr \<lparr> year = y, month = m, day = d \<rparr>
         else Inl ValueError)"

text \<open>RestDialect.lookback_start, with \<open>date.today()\<close> and the relativedelta subtraction
  as parameters.\<close>

definition rest_lookback_start ::
  "(date \<Rightarrow> int \<Rightarrow> int \<Rightarrow> dialect_error + date) \<Rightarrow> date \<Rightarrow> int \<Rightarrow> string \<Rightarrow> dialect_error + string" where
  "rest_lookback_start rdelta today v unit =
     (let unit_upper = py_upper unit;
          result =
            (if unit_upper = ''Y'' then rdelta today v 0
             else if unit_upper = ''M'' then rdelta today 0 v
             else if unit_upper = ''W'' then sub_days today (7 * v)
             else sub_days today v)
      in case result of Inl e \<Rightarrow> Inl e | Inr d \<Rightarrow> Inr (isoformat d))"

section \<open>String operations used by the parser\<close>

text \<open>\<open>str.isspace\<close> on the code points below 256; \<open>s.strip()\<close> removes these at
  both ends.\<close>

definition is_space :: "char \<Rightarrow> bool" where
  "is_space c = (c \<in> set [CHR 0x09, CHR 0x0A, CHR 0x0B, CHR 0x0C, CHR 0x0D, CHR 0x1C, CHR 0x1D,
      CHR 0x1E, CHR 0x1F, CHR 0x20, CHR 0x85, CHR 0xA0])"

definition py_strip :: "string \<Rightarrow> string" where
  "py_strip s = rev (dropWhile is_space (rev (dropWhile is_space s)))"

text \<open>Tab, newline and carriage return: the characters that \<open>urlparse\<close> removes from
  its argument.\<close>

definition is_removed :: "char \<Rightarrow> bool" where
  "is_removed c = (c \<in> set [CHR 0x09, CHR 0x0A, CHR 0x0D])"

text \<open>\<open>s.strip(c)\<close> for a single character \<open>c\<close>.\<close>

definition strip_char :: "char \<Rightarrow> string \<Rightarrow> string" where
  "strip_char c s = rev (dropWhile (\<lambda>x. x = c) (rev (dropWhile (\<lambda>x. x = c) s)))"

definition startswith :: "string \<Rightarrow> string \<Rightarrow> bool" where
  "startswith s p = (take (length p) s = p)"

text \<open>\<open>sub in s\<close>.\<close>

fun contains :: "string \<Rightarrow> string \<Rightarrow> bool" where
  "contains sub [] = (sub = [])"
| "contains sub (c # cs) = (startswith (c # cs) sub \<or> contains sub cs)"

text \<open>\<open>s.find(c)\<close> and \<open>s.rfind(c)\<close> for a single character: the index of the first
  (last) occurrence, or -1.\<close>

definition py_find :: "char \<Rightarrow> string \<Rightarrow> int" where
  "py_find c s = (if c \<in> set s then int (length (takeWhile (\<lambda>x. x \<noteq> c) s)) else - 1)"

definition py_rfind :: "char \<Rightarrow> string \<Rightarrow> int" where
  "py_rfind c s =
     (if c \<in> set s then int (length s) - 1 - int (length (takeWhile (\<lambda>x. x \<noteq> c) (rev s))) else - 1)"

text \<open>\<open>s.split(c, 1)\<close> for a character that occurs in \<open>s\<close>: the text before its first
  occurrence and the text after it.\<close>

definition split1 :: "char \<Rightarrow> string \<Rightarrow> string \<times> string" where
  "split1 c s = (takeWhile (\<lambda>x. x \<noteq> c) s, drop 1 (dropWhile (\<lambda>x. x \<noteq> c) s))"

text \<open>\<open>s.rsplit(sep, 1)\<close> for a non-empty separator: \<open>None\<close> when the separator does not
  occur (Python returns the one-element list), else the texts around its last occurrence.\<close>

fun split_last :: "string \<Rightarrow> string \<Rightarrow> (string \<times> string) option" where
  "split_last sep [] = None"
| "split_last sep (c # cs) =
     (case split_last sep cs of
        Some (a, b) \<Rightarrow> Some (c # a, b)
      | None \<Rightarrow> if startswith (c # cs) sep then Some ([], drop (length sep) (c # cs)) else None)"

text \<open>\<open>s.split(c)\<close>: all the fields between occurrences of \<open>c\<close>.\<close>

fun split_on :: "char \<Rightarrow> string \<Rightarrow> string list" where
  "split_on c [] = [[]]"
| "split_on c (x # xs) =
     (if x = c then [] # split_on c xs
      else (case split_on c xs of w # ws \<Rightarrow> (x # w) # ws | [] \<Rightarrow> [[x]]))"

text \<open>\<open>sep.join(xs)\<close>.\<close>

fun py_join :: "string \<Rightarrow> string list \<Rightarrow> string" where
  "py_join sep [] = []"
| "py_join sep [x] = x"
| "py_join sep (x # y # ys) = x @ sep @ py_join sep (y # ys)"

text \<open>\<open>int(ds)\<close> on a string of decimal digits: \<open>None\<close> when the string has more
  digits than the conversion allows (leading zeros count) and ValueError is raised.\<close>

definition digit_val :: "char \<Rightarrow> int" where
  "digit_val c = int (length (takeWhile (\<lambda>x. x \<noteq> c) ''0123456789''))"

definition digits_value :: "string \<Rightarrow> int" where
  "digits_value ds = foldl (\<lambda>a c. 10 * a + digit_val c) 0 ds"

definition py_int :: "string \<Rightarrow> int option" where
  "py_int ds = (if length ds > int_max_str_digits then None else Some (digits_value ds))"

section \<open>Moniker types (moniker/types.py)\<close>

text \<open>A MonikerPath is its tuple of segments. QueryParams is an insertion-ordered
  dictionary, kept as the list of its items in insertion order.\<close>

record Moniker =
  path :: "string list"
  namespace :: "string option"
  version :: "string option"
  revision :: "int option"
  params :: "(string \<times> string) list"

text \<open>
  The exceptions of the moniker module. The first five are MonikerParseError; the last
  two are the plain ValueError, as \<open>urllib.parse.urlparse\<close> raises it and as a conversion
  between \<open>int\<close> and \<open>str\<close> past the digit limit raises it.
\<close>

datatype error =
    EmptyMoniker
  | InvalidScheme string
  | InvalidNamespace string
  | InvalidVersion string
  | InvalidSegment string
  | UrlValueError
  | IntValueError

fun is_parse_error :: "error \<Rightarrow> bool" where
  "is_parse_error UrlValueError = False"
| "is_parse_error IntValueError = False"
| "is_parse_error _ = True"

text \<open>Moniker.__str__. The f-string of the revision raises when the revision is beyond
  the digit limit.\<close>

definition moniker_to_str :: "Moniker \<Rightarrow> error + string" where
  "moniker_to_str m =
     (case (case revision m of Some r \<Rightarrow> map_option (\<lambda>n. ''/v'' @ n) (py_str_int r) | None \<Rightarrow> Some []) of
        None \<Rightarrow> Inl IntValueError
      | Some revision_part \<Rightarrow>
         (let base =
            (case namespace m of Some n \<Rightarrow> if n \<noteq> [] then n @ ''@'' else [] | None \<Rightarrow> [])
            @ py_join ''/'' (path m)
            @ (case version m of Some v \<Rightarrow> if v \<noteq> [] then ''@'' @ v else [] | None \<Rightarrow> [])
            @ revision_part
          in if params m \<noteq> []
             then Inr (''moniker://'' @ base @ ''?'' @ py_join ''&'' (map (\<lambda>(k, v). k @ ''='' @ v) (params m)))
             else Inr (''moniker://'' @ base)))"

section \<open>The parser (moniker/parser.py)\<close>

text \<open>The three patterns, as \<open>re.match\<close> applies them. The patterns end in \<open>$\<close>, which
  in Python also matches just before a newline that ends the string: \<open>chomp_nl\<close> removes
  that newline.\<close>

definition chomp_nl :: "string \<Rightarrow> string" where
  "chomp_nl s = (if s \<noteq> [] \<and> last s = chr_nl then butlast s else s)"

definition is_seg_char :: "char \<Rightarrow> bool" where
  "is_seg_char c = (is_alnum c \<or> c \<in> set ''_.-'')"

definition is_ns_char :: "char \<Rightarrow> bool" where
  "is_ns_char c = (is_alnum c \<or> c \<in> set ''_-'')"

definition SEGMENT_PATTERN :: "string \<Rightarrow> bool" where
  "SEGMENT_PATTERN s = (case chomp_nl s of [] \<Rightarrow> False | c # cs \<Rightarrow> is_alnum c \<and> list_all is_seg_char cs)"

definition NAMESPACE_PATTERN :: "string \<Rightarrow> bool" where
  "NAMESPACE_PATTERN s = (case chomp_nl s of [] \<Rightarrow> False | c # cs \<Rightarrow> is_alpha c \<and> list_all is_ns_char cs)"

definition VERSION_PATTERN :: "string \<Rightarrow> bool" where
  "VERSION_PATTERN s = (case chomp_nl s of [] \<Rightarrow> False | c # cs \<Rightarrow> list_all is_alnum (c # cs))"

definition validate_segment :: "string \<Rightarrow> bool" where
  "validate_segment segment =
     (if segment = [] then False
      else if length segment > 128 then False
      else SEGMENT_PATTERN segment)"

definition validate_namespace :: "string \<Rightarrow> bool" where
  "validate_namespace ns =
     (if ns = [] then False
      else if length ns > 64 then False
      else NAMESPACE_PATTERN ns)"

text \<open>parse_path: the loop over the segments raises at the first invalid one.\<close>

definition parse_path :: "bool \<Rightarrow> string \<Rightarrow> error + string list" where
  "parse_path validate path_str =
     (if path_str = [] \<or> path_str = ''/'' then Inr []
      else let clean = strip_char (CHR ''/'') path_str in
        if clean = [] then Inr []
        else let segments = split_on (CHR ''/'') clean in
          if validate then
            (case find (\<lambda>seg. \<not> validate_segment seg) segments of
               Some seg \<Rightarrow> Inl (InvalidSegment seg)
             | None \<Rightarrow> Inr segments)
          else Inr segments)"

subsection \<open>The standard library: urlparse and parse_qs\<close>

text \<open>
  \<open>urllib.parse\<close> is not part of the repository. Two of its internals are taken as
  parameters: whether \<open>_check_bracketed_host\<close> accepts the text between square brackets
  in the network location (releases before it was added accept everything), and the
  percent-decoding that \<open>unquote\<close> applies to a string containing a percent sign.
\<close>

record urllib =
  check_bracketed_host :: "string \<Rightarrow> bool"
  unquote_percent :: "string \<Rightarrow> string"

text \<open>
  \<open>urlparse(s)\<close> for a string that starts with \<open>moniker://\<close>: tab, carriage return and
  newline are removed; the scheme and the two slashes are cut off; the network location
  runs up to the first of \<open>/\<close>, \<open>?\<close>, \<open>#\<close>; the fragment after the first \<open>#\<close> is dropped;
  the query is the text after the first \<open>?\<close>. The result is (netloc, path, query).
\<close>

definition urlparse :: "urllib \<Rightarrow> string \<Rightarrow> error + (string \<times> string \<times> string)" where
  "urlparse L s =
     (let url0 = filter (\<lambda>c. c \<notin> set [CHR 0x09, CHR 0x0A, CHR 0x0D]) s;
          rest = drop 10 url0;
          netloc = takeWhile (\<lambda>c. c \<notin> set ''/?#'') rest;
          url1 = dropWhile (\<lambda>c. c \<notin> set ''/?#'') rest
      in if (CHR ''['' \<in> set netloc \<and> CHR '']'' \<notin> set netloc)
            \<or> (CHR '']'' \<in> set netloc \<and> CHR ''['' \<notin> set netloc)
         then Inl UrlValueError
         else if CHR ''['' \<in> set netloc \<and> CHR '']'' \<in> set netloc
              \<and> \<not> check_bracketed_host L
                    (takeWhile (\<lambda>c. c \<noteq> CHR '']'') (drop 1 (dropWhile (\<lambda>c. c \<noteq> CHR ''['') netloc)))
         then Inl UrlValueError
         else let url2 = takeWhile (\<lambda>c. c \<noteq> CHR ''#'') url1
              in Inr (netloc, takeWhile (\<lambda>c. c \<noteq> CHR ''?'') url2,
                      drop 1 (dropWhile (\<lambda>c. c \<noteq> CHR ''?'') url2)))"

text \<open>An instance of the parameters, for evaluation at concrete inputs. The inputs
  evaluated below contain no square bracket and no percent sign, so neither parameter is
  consulted there.\<close>

definition urllib_plain :: urllib where
  "urllib_plain = \<lparr> check_bracketed_host = (\<lambda>h. True), unquote_percent = (\<lambda>s. s) \<rparr>"

definition unquote :: "urllib \<Rightarrow> string \<Rightarrow> string" where
  "unquote L s = (if CHR ''%'' \<in> set s then unquote_percent L s else s)"

text \<open>A name or value of a query field: \<open>x.replace('+', ' ')\<close>, then \<open>unquote\<close>.\<close>

definition unquote_plus :: "urllib \<Rightarrow> string \<Rightarrow> string" where
  "unquote_plus L x = unquote L (map (\<lambda>c. if c = CHR ''+'' then CHR '' '' else c) x)"

text \<open>\<open>parse_qsl(qs, keep_blank_values=True)\<close>: empty fields are skipped; a field with no
  \<open>=\<close> has the empty value.\<close>

definition parse_qsl :: "urllib \<Rightarrow> string \<Rightarrow> (string \<times> string) list" where
  "parse_qsl L qs =
     (let query_args = (if qs = [] then [] else split_on (CHR ''&'') qs)
      in map (\<lambda>name_value.
                if CHR ''='' \<in> set name_value
                then (case split1 (CHR ''='') name_value of (n, v) \<Rightarrow> (unquote_plus L n, unquote_plus L v))
                else (unquote_plus L name_value, []))
             (filter (\<lambda>name_value. name_value \<noteq> []) query_args))"

text \<open>\<open>parse_qs\<close> collects the values of each name in a dictionary and the parser takes the
  first value of each: the first pair of each name is kept, in order of first occurrence.\<close>

fun first_values :: "(string \<times> string) list \<Rightarrow> (string \<times> string) list \<Rightarrow> (string \<times> string) list" where
  "first_values acc [] = acc"
| "first_values acc ((k, v) # ps) =
     (if k \<in> set (map fst acc) then first_values acc ps else first_values (acc @ [(k, v)]) ps)"

definition parse_params :: "urllib \<Rightarrow> string \<Rightarrow> (string \<times> string) list" where
  "parse_params L query_str = (if query_str = [] then [] else first_values [] (parse_qsl L query_str))"

subsection \<open>parse_moniker, step by step\<close>

text \<open>Scheme handling, on the stripped input: the body and the query string.\<close>

definition split_scheme :: "urllib \<Rightarrow> string \<Rightarrow> error + (string \<times> string)" where
  "split_scheme L s =
     (if startswith s ''moniker://'' then
        (case urlparse L s of Inl e \<Rightarrow> Inl e | Inr (netloc, p, q) \<Rightarrow> Inr (netloc @ p, q))
      else if contains ''://'' s then Inl (InvalidScheme s)
      else if CHR ''?'' \<in> set s then Inr (split1 (CHR ''?'') s)
      else Inr (s, []))"

text \<open>The namespace prefix: the namespace and the remaining text, or the namespace error.\<close>

definition split_namespace :: "bool \<Rightarrow> string \<Rightarrow> error + (string option \<times> string)" where
  "split_namespace validate body =
     (let first_at = py_find (CHR ''@'') body;
          first_slash = py_find (CHR ''/'') body
      in if first_at \<noteq> - 1 \<and> (first_slash = - 1 \<or> first_at < first_slash) then
           (let ns = take (nat first_at) body
            in if validate \<and> \<not> validate_namespace ns
               then Inl (InvalidNamespace ns)
               else Inr (Some ns, drop (nat (first_at + 1)) body))
         else Inr (None, body))"

text \<open>The revision pattern \<open>^(\d+)(?:$|(?=\?))\<close> under \<open>re.match\<close>: the digits of group 1
  when the string starts with digits that are followed by the end of the string, by a
  newline that ends the string, or by a question mark.\<close>

definition rev_match :: "string \<Rightarrow> string option" where
  "rev_match s =
     (let ds = takeWhile is_digit s; rest = dropWhile is_digit s
      in if ds \<noteq> [] \<and> (case rest of [] \<Rightarrow> True | c # cs \<Rightarrow> c = CHR ''?'' \<or> (c = chr_nl \<and> cs = []))
         then Some ds else None)"

text \<open>The revision suffix: the revision and the remaining text, or the ValueError of
  \<open>int\<close> on the digits.\<close>

definition split_revision :: "string \<Rightarrow> error + (int option \<times> string)" where
  "split_revision remaining =
     (if contains ''/v'' remaining then
        (case split_last ''/v'' remaining of
           Some (parts0, potential_rev) \<Rightarrow>
             (case rev_match potential_rev of
                Some ds \<Rightarrow>
                  (case py_int ds of
                     Some r \<Rightarrow> Inr (Some r, parts0)
                   | None \<Rightarrow> Inl IntValueError)
              | None \<Rightarrow> Inr (None, remaining))
         | None \<Rightarrow> Inr (None, remaining))
      else Inr (None, remaining))"

text \<open>The version suffix: the version and the remaining text, or the version error.\<close>

definition split_version :: "bool \<Rightarrow> string \<Rightarrow> error + (string option \<times> string)" where
  "split_version validate remaining =
     (if CHR ''@'' \<in> set remaining then
        (let last_slash_idx = py_rfind (CHR ''/'') remaining;
             at_idx = py_rfind (CHR ''@'') remaining
         in if at_idx > last_slash_idx then
              (let version = drop (nat (at_idx + 1)) remaining
               in if validate \<and> version \<noteq> [] \<and> \<not> VERSION_PATTERN version
                  then Inl (InvalidVersion version)
                  else Inr (Some version, take (nat at_idx) remaining))
            else Inr (None, remaining))
      else Inr (None, remaining))"

text \<open>What follows the namespace step: revision, version, path and query parameters.\<close>

definition parse_suffixes :: "urllib \<Rightarrow> bool \<Rightarrow> string option \<Rightarrow> string \<Rightarrow> string \<Rightarrow> error + Moniker" where
  "parse_suffixes L validate ns remaining query_str =
     (case split_revision remaining of
        Inl e \<Rightarrow> Inl e
      | Inr (rv, remaining2) \<Rightarrow>
        (case split_version validate remaining2 of
           Inl e \<Rightarrow> Inl e
         | Inr (ver, remaining3) \<Rightarrow>
            (case parse_path validate remaining3 of
               Inl e \<Rightarrow> Inl e
             | Inr p \<Rightarrow>
                 Inr \<lparr> path = p, namespace = ns, version = ver, revision = rv,
                       params = parse_params L query_str \<rparr>)))"

definition parse_moniker :: "urllib \<Rightarrow> bool \<Rightarrow> string \<Rightarrow> error + Moniker" where
  "parse_moniker L validate moniker_str =
     (if moniker_str = [] then Inl EmptyMoniker
      else case split_scheme L (py_strip moniker_str) of
        Inl e \<Rightarrow> Inl e
      | Inr (body, query_str) \<Rightarrow>
         (case split_namespace validate body of
            Inl e \<Rightarrow> Inl e
          | Inr (ns, remaining) \<Rightarrow> parse_suffixes L validate ns remaining query_str))"

text \<open>normalize_moniker: parse with validation, then serialize.\<close>

definition normalize_moniker :: "urllib \<Rightarrow> string \<Rightarrow> error + string" where
  "normalize_moniker L moniker_str =
     (case parse_moniker L True moniker_str of Inl e \<Rightarrow> Inl e | Inr m \<Rightarrow> moniker_to_str m)"

text \<open>build_moniker: only the path goes through parse_path (with validation, its default);
  the other components are stored as they are given. The keyword arguments are the items
  of a dictionary.\<close>

definition build_moniker ::
  "string \<Rightarrow> string option \<Rightarrow> string option \<Rightarrow> int option \<Rightarrow> (string \<times> string) list \<Rightarrow> error + Moniker" where
  "build_moniker p ns ver rv kwargs =
     (case parse_path True p of
        Inl e \<Rightarrow> Inl e
      | Inr segs \<Rightarrow> Inr \<lparr> path = segs, namespace = ns, version = ver, revision = rv, params = kwargs \<rparr>)"

section \<open>The grammar of the specification\<close>

text \<open>
  The segment grammar as the specification words it: an alphanumeric character followed
  by alphanumerics, underscores, dots and hyphens, at most 128 characters in all. The
  check of the code, \<open>validate_segment\<close>, is compared with it below.
\<close>

definition segment_grammar :: "string \<Rightarrow> bool" where
  "segment_grammar g =
     (case g of [] \<Rightarrow> False | c # cs \<Rightarrow> is_alnum c \<and> list_all is_seg_char cs \<and> length g \<le> 128)"

definition ends_in_newline :: "string \<Rightarrow> bool" where
  "ends_in_newline g = (g \<noteq> [] \<and> last g = chr_nl)"

section \<open>Canonical monikers\<close>

text \<open>
  The monikers that their own serialization determines. A segment of the form \<open>v\<close> followed
  by digits reads back as a revision, a version behind a single segment with no namespace
  reads back as a namespace, and the serialization escapes nothing in the query
  parameters; the grammar checks let a final newline through, which the serialization
  would not survive.

  In a parameter name or value the characters \<open>&\<close>, \<open>#\<close>, \<open>+\<close> and \<open>%\<close> do not read back,
  and neither do tab, newline and carriage return, which \<open>urlparse\<close> removes; a name
  cannot hold \<open>=\<close>, a value can. White space at the very end of the serialization is
  stripped, so the last value must not end in it.
\<close>

definition is_rev_segment :: "string \<Rightarrow> bool" where
  "is_rev_segment g = (case g of [] \<Rightarrow> False | c # ds \<Rightarrow> c = CHR ''v'' \<and> ds \<noteq> [] \<and> list_all is_digit ds)"

definition query_value :: "string \<Rightarrow> bool" where
  "query_value x = list_all (\<lambda>c. c \<notin> set ''&#+%'' \<and> \<not> is_removed c) x"

definition query_name :: "string \<Rightarrow> bool" where
  "query_name x = (query_value x \<and> CHR ''='' \<notin> set x)"

definition ends_in_space :: "string \<Rightarrow> bool" where
  "ends_in_space x = (x \<noteq> [] \<and> is_space (last x))"

definition canonical :: "Moniker \<Rightarrow> bool" where
  "canonical m =
     (list_all (\<lambda>g. validate_segment g \<and> chr_nl \<notin> set g) (path m)
      \<and> (case namespace m of None \<Rightarrow> True | Some n \<Rightarrow> validate_namespace n \<and> chr_nl \<notin> set n)
      \<and> (case version m of None \<Rightarrow> True | Some v \<Rightarrow> list_all is_alnum v)
      \<and> (case revision m of None \<Rightarrow> True | Some r \<Rightarrow> 0 \<le> r)
      \<and> (truthy (version m) \<longrightarrow> namespace m \<noteq> None \<or> 2 \<le> length (path m))
      \<and> (revision m = None \<and> \<not> truthy (version m) \<and> 2 \<le> length (path m)
            \<longrightarrow> \<not> is_rev_segment (last (path m)))
      \<and> distinct (map fst (params m))
      \<and> list_all (\<lambda>(k, v). query_name k \<and> query_value v) (params m)
      \<and> (params m \<noteq> [] \<longrightarrow> \<not> ends_in_space (snd (last (params m)))))"

text \<open>The revision is within the digit limit of the conversion to \<open>str\<close>.\<close>

definition revision_in_limit :: "Moniker \<Rightarrow> bool" where
  "revision_in_limit m = (case revision m of None \<Rightarrow> True | Some r \<Rightarrow> \<bar>r\<bar> < 10 ^ int_max_str_digits)"

section \<open>Facts about the string operations\<close>

lemma find_Some_holds: "find P xs = Some x \<Longrightarrow> P x \<and> x \<in> set xs"
  by (induction xs) (auto split: if_splits)

lemma find_None_all: "find (\<lambda>x. \<not> P x) xs = None \<Longrightarrow> list_all P xs"
  by (induction xs) (auto split: if_splits)

lemma strip_char_Nil_iff: "strip_char c s = [] \<longleftrightarrow> (\<forall>x\<in>set s. x = c)"
  unfolding strip_char_def
  by (metis (mono_tags, lifting) dropWhile_eq_Nil_conv rev_is_Nil_conv set_rev dropWhile_idem)

text \<open>parse_path by cases: the two early returns coincide with an empty stripped path.\<close>

lemma parse_path_cases:
  "parse_path validate p =
     (if strip_char (CHR ''/'') p = [] then Inr []
      else if validate then
        (case find (\<lambda>seg. \<not> validate_segment seg) (split_on (CHR ''/'') (strip_char (CHR ''/'') p)) of
           Some seg \<Rightarrow> Inl (InvalidSegment seg)
         | None \<Rightarrow> Inr (split_on (CHR ''/'') (strip_char (CHR ''/'') p)))
      else Inr (split_on (CHR ''/'') (strip_char (CHR ''/'') p)))"
proof (cases "p = [] \<or> p = ''/''")
  case True
  then have "strip_char (CHR ''/'') p = []"
    by (auto simp add: strip_char_Nil_iff)
  with True show ?thesis by (simp add: parse_path_def)
next
  case False
  then show ?thesis by (simp add: parse_path_def Let_def)
qed

lemma parse_path_Inr:
  assumes "parse_path validate p = Inr segs"
  shows "segs = (if strip_char (CHR ''/'') p = [] then [] else split_on (CHR ''/'') (strip_char (CHR ''/'') p))"
    and "validate \<Longrightarrow> list_all validate_segment segs"
proof -
  show "segs = (if strip_char (CHR ''/'') p = [] then [] else split_on (CHR ''/'') (strip_char (CHR ''/'') p))"
    using assms unfolding parse_path_cases
    by (simp split: if_splits option.splits)
  show "list_all validate_segment segs" if "validate"
    using assms that unfolding parse_path_cases
    by (simp add: find_None_all split: if_splits option.splits)
qed

lemma parse_path_Inl:
  assumes "parse_path validate p = Inl e"
  shows "\<exists>seg. e = InvalidSegment seg \<and> \<not> validate_segment seg
            \<and> seg \<in> set (split_on (CHR ''/'') (strip_char (CHR ''/'') p))"
proof -
  from assms obtain seg where
    f: "find (\<lambda>seg. \<not> validate_segment seg) (split_on (CHR ''/'') (strip_char (CHR ''/'') p)) = Some seg"
    and e: "e = InvalidSegment seg"
    unfolding parse_path_cases by (simp split: if_splits option.splits)
  from find_Some_holds [OF f] e show ?thesis by blast
qed

text \<open>Definitions to unfold when evaluating the grammar checks on literals.\<close>

lemmas char_class_defs = is_alnum_def is_alpha_def is_digit_def is_seg_char_def is_ns_char_def chr_nl_def

lemmas grammar_defs = validate_segment_def SEGMENT_PATTERN_def validate_namespace_def
  NAMESPACE_PATTERN_def VERSION_PATTERN_def chomp_nl_def

lemma py_find_absent: "py_find c s = - 1 \<longleftrightarrow> c \<notin> set s"
  by (simp add: py_find_def)

lemma takeWhile_order:
  "a \<noteq> b \<Longrightarrow> a \<in> set s \<Longrightarrow> b \<in> set s \<Longrightarrow>
     length (takeWhile (\<lambda>x. x \<noteq> a) s) < length (takeWhile (\<lambda>x. x \<noteq> b) s)
       \<longleftrightarrow> b \<notin> set (takeWhile (\<lambda>x. x \<noteq> a) s)"
  by (induction s) auto

lemma set_takeWhile_absent: "b \<notin> set s \<Longrightarrow> b \<notin> set (takeWhile P s)"
  by (meson set_takeWhileD)

text \<open>The test of the namespace step, in terms of the text before the first at sign.\<close>

lemma namespace_test:
  "(py_find (CHR ''@'') body \<noteq> - 1
      \<and> (py_find (CHR ''/'') body = - 1 \<or> py_find (CHR ''@'') body < py_find (CHR ''/'') body))
   \<longleftrightarrow> (CHR ''@'' \<in> set body \<and> CHR ''/'' \<notin> set (takeWhile (\<lambda>x. x \<noteq> CHR ''@'') body))"
proof (cases "CHR ''@'' \<in> set body")
  case False
  then show ?thesis by (simp add: py_find_def)
next
  case at: True
  show ?thesis
  proof (cases "CHR ''/'' \<in> set body")
    case False
    with at show ?thesis by (simp add: py_find_def set_takeWhile_absent)
  next
    case True
    with at takeWhile_order [of "CHR ''@''" "CHR ''/''" body] show ?thesis
      by (simp add: py_find_def)
  qed
qed

lemma split_namespace_eq:
  "split_namespace validate body =
     (if CHR ''@'' \<in> set body \<and> CHR ''/'' \<notin> set (takeWhile (\<lambda>x. x \<noteq> CHR ''@'') body) then
        (if validate \<and> \<not> validate_namespace (takeWhile (\<lambda>x. x \<noteq> CHR ''@'') body)
         then Inl (InvalidNamespace (takeWhile (\<lambda>x. x \<noteq> CHR ''@'') body))
         else Inr (Some (takeWhile (\<lambda>x. x \<noteq> CHR ''@'') body),
                   drop 1 (dropWhile (\<lambda>x. x \<noteq> CHR ''@'') body)))
      else Inr (None, body))"
proof (cases "CHR ''@'' \<in> set body \<and> CHR ''/'' \<notin> set (takeWhile (\<lambda>x. x \<noteq> CHR ''@'') body)")
  case False
  with namespace_test [of body] show ?thesis
    unfolding split_namespace_def Let_def by (simp only: if_False)
next
  case True
  then have at: "CHR ''@'' \<in> set body" by simp
  have t: "take (nat (py_find (CHR ''@'') body)) body = takeWhile (\<lambda>x. x \<noteq> CHR ''@'') body"
    using at by (simp add: py_find_def takeWhile_eq_take [symmetric])
  have d: "drop (nat (py_find (CHR ''@'') body + 1)) body = drop 1 (dropWhile (\<lambda>x. x \<noteq> CHR ''@'') body)"
    using at by (simp add: py_find_def dropWhile_eq_drop nat_add_distrib)
  from True namespace_test [of body] show ?thesis
    unfolding split_namespace_def Let_def t d by (simp only: if_True)
qed

lemma parse_suffixes_namespace:
  "parse_suffixes L validate ns r q = Inr m \<Longrightarrow> namespace m = ns"
  unfolding parse_suffixes_def
  by (auto split: prod.splits sum.splits)

lemma split_scheme_error:
  "split_scheme L s = Inl e \<Longrightarrow> e = UrlValueError \<or> e = InvalidScheme s"
  unfolding split_scheme_def urlparse_def Let_def
  by (simp split: if_splits sum.splits prod.splits)

lemma split_version_error:
  "split_version validate r = Inl e \<Longrightarrow> \<exists>v. e = InvalidVersion v"
  unfolding split_version_def Let_def
  by (auto split: if_splits)

lemma split_revision_error:
  "split_revision r = Inl e \<Longrightarrow> e = IntValueError"
  unfolding split_revision_def
  by (simp split: if_splits option.splits prod.splits)

lemma parse_suffixes_error:
  assumes "parse_suffixes L validate ns r q = Inl e"
  shows "(\<exists>v. e = InvalidVersion v) \<or> (\<exists>g. e = InvalidSegment g) \<or> e = IntValueError"
proof (cases "split_revision r")
  case (Inl e')
  with assms have "e = e'" by (simp add: parse_suffixes_def)
  with split_revision_error [OF Inl] show ?thesis by simp
next
  case (Inr rr)
  obtain rv r2 where sr: "split_revision r = Inr (rv, r2)" using Inr by (cases rr) simp
  show ?thesis
  proof (cases "split_version validate r2")
    case (Inl e')
    with assms sr have "e = e'" by (simp add: parse_suffixes_def)
    with split_version_error [OF Inl] show ?thesis by blast
  next
    case (Inr vr)
    obtain ver r3 where vr: "vr = (ver, r3)" by (cases vr)
    from assms sr Inr vr have "parse_path validate r3 = Inl e"
      by (simp add: parse_suffixes_def split: sum.splits)
    from parse_path_Inl [OF this] show ?thesis by blast
  qed
qed

lemma parse_suffixes_revision:
  assumes "parse_suffixes L validate ns r q = Inr m"
  shows "\<exists>r2. split_revision r = Inr (revision m, r2)"
proof (cases "split_revision r")
  case (Inl e)
  with assms show ?thesis by (simp add: parse_suffixes_def)
next
  case (Inr rr)
  obtain rv r2 where sr: "split_revision r = Inr (rv, r2)" using Inr by (cases rr) simp
  with assms have "revision m = rv"
    by (auto simp add: parse_suffixes_def split: sum.splits prod.splits)
  with sr show ?thesis by simp
qed

lemma split_namespace_error:
  "split_namespace validate body = Inl e \<Longrightarrow> \<exists>n. e = InvalidNamespace n"
  unfolding split_namespace_eq by (auto split: if_splits)

lemma parse_moniker_nonempty:
  assumes "s \<noteq> []" and "split_scheme L (py_strip s) = Inr (body, q)"
  shows "parse_moniker L validate s =
           (case split_namespace validate body of
              Inl e \<Rightarrow> Inl e
            | Inr (ns, remaining) \<Rightarrow> parse_suffixes L validate ns remaining q)"
  using assms by (simp add: parse_moniker_def)

lemma parse_moniker_error:
  assumes "parse_moniker L validate s = Inl e"
  shows "(s = [] \<and> e = EmptyMoniker) \<or> (s \<noteq> [] \<and> e \<noteq> EmptyMoniker)"
proof (cases "s = []")
  case True
  with assms show ?thesis by (simp add: parse_moniker_def)
next
  case False
  show ?thesis
  proof (cases "split_scheme L (py_strip s)")
    case (Inl e')
    with assms False have "e = e'" by (simp add: parse_moniker_def)
    with split_scheme_error [OF Inl] False show ?thesis by auto
  next
    case (Inr bq)
    obtain body q where bq: "bq = (body, q)" by (cases bq)
    note pm = parse_moniker_nonempty [OF False Inr [unfolded bq], of validate]
    show ?thesis
    proof (cases "split_namespace validate body")
      case (Inl e')
      with assms pm have "e = e'" by simp
      with split_namespace_error [OF Inl] False show ?thesis by auto
    next
      case (Inr nr)
      obtain ns r where nr: "nr = (ns, r)" by (cases nr)
      from assms pm Inr nr have "parse_suffixes L validate ns r q = Inl e" by simp
      from parse_suffixes_error [OF this] False show ?thesis by auto
    qed
  qed
qed

lemma parse_suffixes_empty:
  "parse_suffixes L validate ns [] q
     = Inr \<lparr> path = [], namespace = ns, version = None, revision = None, params = parse_params L q \<rparr>"
  by (simp add: parse_suffixes_def split_revision_def split_version_def parse_path_def)

text \<open>Definitions to unfold when evaluating the string and query operations on literals.\<close>

lemmas string_op_defs = py_strip_def is_space_def startswith_def split1_def strip_char_def
  py_find_def py_rfind_def

lemmas query_defs = parse_params_def parse_qsl_def unquote_plus_def unquote_def

lemmas parser_defs = parse_moniker_def split_scheme_def urlparse_def split_namespace_def
  parse_suffixes_def split_revision_def rev_match_def split_version_def parse_path_def py_int_def
  digits_value_def digit_val_def int_max_str_digits_def

lemma startswith_contains: "startswith s sep \<Longrightarrow> contains sep s"
  by (cases s) (auto simp add: startswith_def)

lemma contains_append: "contains sep (a @ sep @ b)"
proof (induction a)
  case Nil
  have "startswith (sep @ b) sep" by (simp add: startswith_def)
  then show ?case by (simp add: startswith_contains)
next
  case (Cons x a)
  then show ?case by simp
qed

lemma split_last_None: "sep \<noteq> [] \<Longrightarrow> split_last sep s = None \<longleftrightarrow> \<not> contains sep s"
  by (induction s) (auto split: option.splits)

lemma split_last_Some: "split_last sep s = Some (a, b) \<Longrightarrow> s = a @ sep @ b"
proof (induction s arbitrary: a)
  case Nil
  then show ?case by simp
next
  case (Cons c cs)
  show ?case
  proof (cases "split_last sep cs")
    case None
    with Cons.prems have "startswith (c # cs) sep" and "a = []" and "b = drop (length sep) (c # cs)"
      by (auto split: if_splits)
    then show ?thesis
      by (metis append_Nil append_take_drop_id startswith_def)
  next
    case (Some ab)
    obtain a' b' where ab: "ab = (a', b')" by (cases ab)
    with Some Cons.prems have "a = c # a'" and "b = b'" by auto
    with Cons.IH [of a'] Some ab show ?thesis by simp
  qed
qed

lemma split_last_Some_tail: "sep \<noteq> [] \<Longrightarrow> split_last sep s = Some (a, b) \<Longrightarrow> \<not> contains sep b"
proof (induction s arbitrary: a)
  case Nil
  then show ?case by simp
next
  case (Cons c cs)
  show ?case
  proof (cases "split_last sep cs")
    case None
    with Cons.prems have b: "b = drop (length sep) (c # cs)" and sw: "startswith (c # cs) sep"
      by (auto split: if_splits)
    from None Cons.prems(1) have nc: "\<not> contains sep cs" by (simp add: split_last_None)
    from Cons.prems(1) obtain k where "length sep = Suc k" by (cases sep) auto
    then have "b = drop k cs" using b by simp
    moreover have "\<not> contains sep (drop k cs)"
      using nc
    proof (induction cs arbitrary: k)
      case Nil
      then show ?case by simp
    next
      case (Cons x xs)
      then show ?case by (cases k) auto
    qed
    ultimately show ?thesis by simp
  next
    case (Some ab)
    obtain a' b' where ab: "ab = (a', b')" by (cases ab)
    with Some Cons.prems have "b = b'" by auto
    with Cons.IH [of a'] Cons.prems(1) Some ab show ?thesis by simp
  qed
qed

lemma split_revision_eq:
  "split_revision r =
     (case split_last ''/v'' r of
        None \<Rightarrow> Inr (None, r)
      | Some (a, b) \<Rightarrow>
         (case rev_match b of
            Some ds \<Rightarrow> (case py_int ds of Some n \<Rightarrow> Inr (Some n, a) | None \<Rightarrow> Inl IntValueError)
          | None \<Rightarrow> Inr (None, r)))"
proof (cases "split_last ''/v'' r")
  case None
  then show ?thesis by (simp add: split_revision_def)
next
  case (Some ab)
  then have "contains ''/v'' r"
    using split_last_None [of "''/v''" r] by auto
  with Some show ?thesis by (simp add: split_revision_def)
qed

text \<open>The last occurrence of the separator \<open>/v\<close>.\<close>

lemma split_last_slash_v:
  "\<not> contains ''/v'' b \<Longrightarrow> split_last ''/v'' (a @ ''/v'' @ b) = Some (a, b)"
proof (induction a)
  case Nil
  then have "split_last ''/v'' b = None" by (simp add: split_last_None)
  then have "split_last ''/v'' (CHR ''v'' # b) = None" by (simp add: startswith_def)
  then show ?case by (simp add: startswith_def)
next
  case (Cons x a)
  then show ?case by simp
qed

lemma split_revision_at_last:
  assumes "\<not> contains ''/v'' b"
  shows "split_revision (a @ ''/v'' @ b) =
           (case rev_match b of
              Some ds \<Rightarrow> (case py_int ds of Some n \<Rightarrow> Inr (Some n, a) | None \<Rightarrow> Inl IntValueError)
            | None \<Rightarrow> Inr (None, a @ ''/v'' @ b))"
  unfolding split_revision_eq split_last_slash_v [OF assms] by simp

lemma split_revision_none:
  "\<not> contains ''/v'' r \<Longrightarrow> split_revision r = Inr (None, r)"
  by (simp add: split_revision_def)

lemma rev_match_all_digits:
  assumes "ds \<noteq> []" and "list_all is_digit ds"
  shows "rev_match ds = Some ds"
proof -
  from assms(2) have t: "takeWhile is_digit ds = ds" and d: "dropWhile is_digit ds = []"
    by (simp_all add: list_all_iff)
  show ?thesis unfolding rev_match_def Let_def t d using assms(1) by simp
qed

lemma rev_match_Some:
  assumes "rev_match s = Some ds"
  shows "ds \<noteq> [] \<and> list_all is_digit ds
         \<and> (s = ds \<or> s = ds @ [chr_nl] \<or> (\<exists>t. s = ds @ ''?'' @ t))"
proof -
  let ?r = "dropWhile is_digit s"
  from assms have ds: "ds = takeWhile is_digit s" and ne: "ds \<noteq> []"
    and r: "(case ?r of [] \<Rightarrow> True | c # cs \<Rightarrow> c = CHR ''?'' \<or> (c = chr_nl \<and> cs = []))"
    by (auto simp add: rev_match_def Let_def split: if_splits)
  have s: "s = ds @ ?r" by (simp add: ds)
  have dig: "list_all is_digit ds"
    unfolding ds list_all_iff by (auto dest: set_takeWhileD)
  show ?thesis
  proof (cases ?r)
    case Nil
    with s have "s = ds" by simp
    with ne dig show ?thesis by simp
  next
    case (Cons c cs)
    with r have "c = CHR ''?'' \<or> (c = chr_nl \<and> cs = [])" by simp
    with s Cons have "s = ds @ [chr_nl] \<or> (\<exists>t. s = ds @ ''?'' @ t)" by auto
    with ne dig show ?thesis by simp
  qed
qed

text \<open>The version step on a text cut at its last at sign.\<close>

lemma takeWhile_rev_suffix:
  "c \<notin> set v \<Longrightarrow> takeWhile (\<lambda>x. x \<noteq> c) (rev (pre @ [c] @ v)) = rev v"
  by (auto simp add: takeWhile_tail)

lemma py_rfind_at_last:
  "c \<notin> set v \<Longrightarrow> py_rfind c (pre @ [c] @ v) = int (length pre)"
  using takeWhile_rev_suffix [of c v pre] by (simp add: py_rfind_def)

lemma version_test:
  assumes "CHR ''@'' \<notin> set v"
  shows "py_rfind (CHR ''@'') (pre @ ''@'' @ v) > py_rfind (CHR ''/'') (pre @ ''@'' @ v)
           \<longleftrightarrow> CHR ''/'' \<notin> set v"
proof (cases "CHR ''/'' \<in> set (pre @ ''@'' @ v)")
  case False
  then show ?thesis using py_rfind_at_last [OF assms, of pre] by (simp add: py_rfind_def)
next
  case True
  let ?r = "rev (pre @ ''@'' @ v)"
  have "length (takeWhile (\<lambda>x. x \<noteq> CHR ''@'') ?r) < length (takeWhile (\<lambda>x. x \<noteq> CHR ''/'') ?r)
          \<longleftrightarrow> CHR ''/'' \<notin> set (takeWhile (\<lambda>x. x \<noteq> CHR ''@'') ?r)"
    using True by (intro takeWhile_order) auto
  moreover have "takeWhile (\<lambda>x. x \<noteq> CHR ''@'') ?r = rev v"
    using takeWhile_rev_suffix [OF assms, of pre] by simp
  moreover have "length (takeWhile (\<lambda>x. x \<noteq> CHR ''/'') ?r) \<le> length ?r"
    by (rule length_takeWhile_le)
  ultimately show ?thesis
    using True py_rfind_at_last [OF assms, of pre]
    by (simp add: py_rfind_def)
qed

lemma split_version_at_last:
  assumes "CHR ''@'' \<notin> set v"
  shows "split_version validate (pre @ ''@'' @ v) =
           (if CHR ''/'' \<notin> set v then
              (if validate \<and> v \<noteq> [] \<and> \<not> VERSION_PATTERN v then Inl (InvalidVersion v)
               else Inr (Some v, pre))
            else Inr (None, pre @ ''@'' @ v))"
  using version_test [OF assms, of pre] py_rfind_at_last [OF assms, of pre]
  by (simp add: split_version_def Let_def nat_add_distrib)

lemma split_version_none:
  "CHR ''@'' \<notin> set r \<Longrightarrow> split_version validate r = Inr (None, r)"
  by (simp add: split_version_def)

lemma split_namespace_validate:
  "split_namespace False body = Inr (ns, r) \<Longrightarrow>
     split_namespace True body = Inr (ns, r) \<or> (\<exists>n. split_namespace True body = Inl (InvalidNamespace n))"
  unfolding split_namespace_eq by (auto split: if_splits)

lemma VERSION_PATTERN_plain:
  "v \<noteq> [] \<Longrightarrow> last v \<noteq> chr_nl \<Longrightarrow> VERSION_PATTERN v = list_all is_alnum v"
  by (cases v) (auto simp add: VERSION_PATTERN_def chomp_nl_def)

subsection \<open>Decimal digits\<close>

lemma digit_char_cases:
  "d < 10 \<Longrightarrow> d = 0 \<or> d = 1 \<or> d = 2 \<or> d = 3 \<or> d = 4 \<or> d = 5 \<or> d = 6 \<or> d = 7 \<or> d = 8 \<or> d = (9::nat)"
  by arith

lemma digit_char_is_digit: "d < 10 \<Longrightarrow> is_digit (digit_char d)"
  using digit_char_cases [of d] by (auto simp add: is_digit_def digit_char_def)

lemma digit_val_digit_char: "d < 10 \<Longrightarrow> digit_val (digit_char d) = int d"
  using digit_char_cases [of d] by (auto simp add: digit_val_def digit_char_def)

lemma nat_digits_digits: "list_all is_digit (nat_digits n)"
proof (induction n rule: nat_digits.induct)
  case (1 n)
  show ?case
  proof (cases "n < 10")
    case True
    then show ?thesis by (simp add: nat_digits.simps [of n] digit_char_is_digit)
  next
    case False
    with 1 show ?thesis by (simp add: nat_digits.simps [of n] digit_char_is_digit)
  qed
qed

lemma nat_digits_nonempty: "nat_digits n \<noteq> []"
  by (simp add: nat_digits.simps [of n])

lemma digits_value_snoc: "digits_value (ds @ [c]) = 10 * digits_value ds + digit_val c"
  by (simp add: digits_value_def)

lemma digits_value_nat_digits: "digits_value (nat_digits n) = int n"
proof (induction n rule: nat_digits.induct)
  case (1 n)
  show ?case
  proof (cases "n < 10")
    case True
    then show ?thesis by (simp add: nat_digits.simps [of n] digits_value_def digit_val_digit_char)
  next
    case False
    with 1 have "digits_value (nat_digits (n div 10)) = int (n div 10)" by simp
    moreover have "int n = int (10 * (n div 10) + n mod 10)" by simp
    then have "int n = 10 * int (n div 10) + int (n mod 10)"
      by (simp only: of_nat_add of_nat_mult of_nat_numeral)
    ultimately show ?thesis using False
      by (simp add: nat_digits.simps [of n] digits_value_snoc digit_val_digit_char)
  qed
qed

lemma decimal_nonneg: "0 \<le> r \<Longrightarrow> decimal r = nat_digits (nat r)"
  by (simp add: decimal_def)

text \<open>A number has at most \<open>k\<close> digits when it is below the \<open>k\<close>-th power of ten.\<close>

lemma length_nat_digits: "0 < k \<Longrightarrow> length (nat_digits n) \<le> k \<longleftrightarrow> n < 10 ^ k"
proof (induction n arbitrary: k rule: nat_digits.induct)
  case (1 n)
  show ?case
  proof (cases "n < 10")
    case True
    have "(10::nat) ^ 1 \<le> 10 ^ k" using 1(2) by (intro power_increasing) simp_all
    with True have "n < 10 ^ k" by simp
    with True 1(2) show ?thesis by (simp add: nat_digits.simps [of n])
  next
    case False
    show ?thesis
    proof (cases k)
      case 0
      with 1(2) show ?thesis by simp
    next
      case (Suc j)
      show ?thesis
      proof (cases "j = 0")
        case True
        with Suc False show ?thesis by (simp add: nat_digits.simps [of n] nat_digits_nonempty)
      next
        case nz: False
        with 1(1) [OF False, of j] have "length (nat_digits (n div 10)) \<le> j \<longleftrightarrow> n div 10 < 10 ^ j"
          by simp
        moreover have "n div 10 < 10 ^ j \<longleftrightarrow> n < 10 ^ j * 10"
          by (simp add: div_less_iff_less_mult)
        ultimately show ?thesis using Suc False
          by (simp add: nat_digits.simps [of n] mult.commute)
      qed
    qed
  qed
qed

lemma int_max_str_digits_pos: "0 < int_max_str_digits"
  by (simp add: int_max_str_digits_def)

lemma py_str_int_eq:
  "py_str_int v = (if \<bar>v\<bar> < 10 ^ int_max_str_digits then Some (decimal v) else None)"
proof -
  have "nat \<bar>v\<bar> < 10 ^ int_max_str_digits \<longleftrightarrow> \<bar>v\<bar> < 10 ^ int_max_str_digits"
  proof -
    have "int (nat \<bar>v\<bar>) < int (10 ^ int_max_str_digits) \<longleftrightarrow> nat \<bar>v\<bar> < 10 ^ int_max_str_digits"
      by (rule of_nat_less_iff)
    moreover have "int (nat \<bar>v\<bar>) = \<bar>v\<bar>" by simp
    moreover have "int (10 ^ int_max_str_digits) = 10 ^ int_max_str_digits" by simp
    ultimately show ?thesis by simp
  qed
  with length_nat_digits [OF int_max_str_digits_pos, of "nat \<bar>v\<bar>"] show ?thesis
    by (simp add: py_str_int_def not_le [symmetric])
qed

lemma small_in_limit: "\<bar>v\<bar> < 10 ^ 4 \<Longrightarrow> \<bar>v\<bar> < (10::int) ^ int_max_str_digits"
proof -
  assume a: "\<bar>v\<bar> < 10 ^ 4"
  have "(10::int) ^ 4 \<le> 10 ^ int_max_str_digits"
    by (rule power_increasing) (simp_all add: int_max_str_digits_def)
  with a show ?thesis by (rule less_le_trans)
qed

lemma py_int_nat_digits:
  assumes "int n < 10 ^ int_max_str_digits"
  shows "py_int (nat_digits n) = Some (int n)"
proof -
  have "int n < int (10 ^ int_max_str_digits)" using assms by simp
  then have "n < 10 ^ int_max_str_digits" by (simp only: of_nat_less_iff)
  with length_nat_digits [OF int_max_str_digits_pos, of n]
  have "length (nat_digits n) \<le> int_max_str_digits" by simp
  then show ?thesis by (simp add: py_int_def digits_value_nat_digits)
qed

lemma digit_val_bound: "is_digit c \<Longrightarrow> 0 \<le> digit_val c \<and> digit_val c \<le> 9"
  by (auto simp add: is_digit_def digit_val_def)

lemma digits_value_bound:
  "list_all is_digit ds \<Longrightarrow> 0 \<le> digits_value ds \<and> digits_value ds < 10 ^ length ds"
proof (induction ds rule: rev_induct)
  case Nil
  then show ?case by (simp add: digits_value_def)
next
  case (snoc c ds)
  then have ih: "0 \<le> digits_value ds" "digits_value ds < 10 ^ length ds" by simp_all
  from snoc.prems have "is_digit c" by simp
  from digit_val_bound [OF this] have d: "0 \<le> digit_val c" "digit_val c \<le> 9" by simp_all
  from ih(2) have "digits_value ds + 1 \<le> 10 ^ length ds" by simp
  then have "10 * (digits_value ds + 1) \<le> 10 * 10 ^ length ds" by simp
  with d ih(1) show ?case by (simp add: digits_value_snoc)
qed

lemma py_int_bound:
  assumes "py_int ds = Some r" and "list_all is_digit ds"
  shows "0 \<le> r \<and> r < 10 ^ int_max_str_digits"
proof -
  from assms(1) have le: "length ds \<le> int_max_str_digits" and r: "r = digits_value ds"
    by (auto simp add: py_int_def split: if_splits)
  from digits_value_bound [OF assms(2)] r have "0 \<le> r" and lt: "r < 10 ^ length ds" by simp_all
  have "(10::int) ^ length ds \<le> 10 ^ int_max_str_digits"
    using le by (intro power_increasing) simp_all
  with lt have "r < 10 ^ int_max_str_digits" by (rule less_le_trans)
  with \<open>0 \<le> r\<close> show ?thesis by simp
qed

lemma contains_set: "sep \<noteq> [] \<Longrightarrow> contains sep s \<Longrightarrow> set sep \<subseteq> set s"
proof (induction s)
  case Nil
  then show ?case by simp
next
  case (Cons c cs)
  from Cons.prems(2) have "startswith (c # cs) sep \<or> contains sep cs" by simp
  then show ?case
  proof
    assume "startswith (c # cs) sep"
    then have "sep = take (length sep) (c # cs)" by (simp add: startswith_def)
    then have "set sep \<subseteq> set (c # cs)" by (metis set_take_subset)
    then show ?thesis .
  next
    assume "contains sep cs"
    with Cons.IH Cons.prems(1) show ?thesis by auto
  qed
qed

lemma digits_no_slash_v: "list_all is_digit ds \<Longrightarrow> \<not> contains ''/v'' ds"
proof
  assume d: "list_all is_digit ds" and "contains ''/v'' ds"
  from contains_set [OF _ this(2)] have "CHR ''/'' \<in> set ds" by simp
  with d have "is_digit (CHR ''/'')" by (simp add: list_all_iff)
  then show False by (simp add: is_digit_def)
qed

text \<open>The revision step on a serialized revision.\<close>

lemma split_revision_serialized:
  assumes "0 \<le> r" and "r < 10 ^ int_max_str_digits"
  shows "split_revision (x @ ''/v'' @ decimal r) = Inr (Some r, x)"
proof -
  let ?ds = "nat_digits (nat r)"
  have nc: "\<not> contains ''/v'' ?ds" by (rule digits_no_slash_v [OF nat_digits_digits])
  have rm: "rev_match ?ds = Some ?ds"
    by (rule rev_match_all_digits [OF nat_digits_nonempty nat_digits_digits])
  from assms have "int (nat r) < 10 ^ int_max_str_digits" by simp
  from py_int_nat_digits [OF this] assms(1) have pi: "py_int ?ds = Some r" by simp
  from split_revision_at_last [OF nc, of x] rm pi assms(1) show ?thesis
    by (simp add: decimal_nonneg)
qed

text \<open>A revision that the parser returns is a number within the digit limit.\<close>

lemma split_revision_bound:
  assumes "split_revision x = Inr (Some r, y)"
  shows "0 \<le> r \<and> r < 10 ^ int_max_str_digits"
proof (cases "split_last ''/v'' x")
  case None
  with assms show ?thesis by (simp add: split_revision_eq)
next
  case (Some ab)
  obtain a b where ab: "ab = (a, b)" by (cases ab)
  show ?thesis
  proof (cases "rev_match b")
    case None
    with assms Some ab show ?thesis by (simp add: split_revision_eq)
  next
    case (Some ds)
    with assms \<open>split_last ''/v'' x = Some ab\<close> ab have "py_int ds = Some r"
      by (simp add: split_revision_eq split: option.splits)
    moreover from rev_match_Some [OF Some] have "list_all is_digit ds" by simp
    ultimately show ?thesis by (rule py_int_bound)
  qed
qed

subsection \<open>Joining and splitting\<close>

lemma split_on_absent: "c \<notin> set g \<Longrightarrow> split_on c g = [g]"
  by (induction g) auto

lemma split_on_field: "c \<notin> set g \<Longrightarrow> split_on c (g @ c # rest) = g # split_on c rest"
  by (induction g) auto

lemma split_on_join:
  "xs \<noteq> [] \<Longrightarrow> \<forall>x\<in>set xs. c \<notin> set x \<Longrightarrow> split_on c (py_join [c] xs) = xs"
proof (induction "[c]" xs rule: py_join.induct)
  case 1
  then show ?case by simp
next
  case (2 x)
  then show ?case by (simp add: split_on_absent)
next
  case (3 x y ys)
  then show ?case by (simp add: split_on_field)
qed

lemma set_py_join: "set (py_join sep xs) \<subseteq> set sep \<union> (\<Union>x\<in>set xs. set x)"
  by (induction sep xs rule: py_join.induct) auto

lemma py_join_Nil_iff: "\<forall>x\<in>set xs. x \<noteq> [] \<Longrightarrow> py_join sep xs = [] \<longleftrightarrow> xs = []"
  by (induction sep xs rule: py_join.induct) auto

lemma hd_py_join: "xs \<noteq> [] \<Longrightarrow> \<forall>x\<in>set xs. x \<noteq> [] \<Longrightarrow> hd (py_join sep xs) = hd (hd xs)"
  by (induction sep xs rule: py_join.induct) auto

lemma last_py_join: "xs \<noteq> [] \<Longrightarrow> \<forall>x\<in>set xs. x \<noteq> [] \<Longrightarrow> last (py_join sep xs) = last (last xs)"
proof (induction sep xs rule: py_join.induct)
  case (3 sep x y ys)
  then have "py_join sep (y # ys) \<noteq> []" by (simp add: py_join_Nil_iff)
  with 3 show ?case by simp
qed simp_all

text \<open>The text after the last separator of a joined list is its last element.\<close>

lemma takeWhile_rev_py_join:
  "xs \<noteq> [] \<Longrightarrow> \<forall>x\<in>set xs. c \<notin> set x \<Longrightarrow>
     takeWhile (\<lambda>a. a \<noteq> c) (rev (py_join [c] xs)) = rev (last xs)"
proof (induction "[c]" xs rule: py_join.induct)
  case 1
  then show ?case by simp
next
  case (2 x)
  then show ?case by auto
next
  case (3 x y ys)
  let ?j = "py_join [c] (y # ys)"
  from 3 have ih: "takeWhile (\<lambda>a. a \<noteq> c) (rev ?j) = rev (last (y # ys))" by simp
  have "c \<in> set (rev ?j @ [c])" by simp
  have "takeWhile (\<lambda>a. a \<noteq> c) (rev ?j @ c # rev x) = takeWhile (\<lambda>a. a \<noteq> c) (rev ?j)"
  proof (cases "\<forall>a\<in>set (rev ?j). a \<noteq> c")
    case True
    then show ?thesis by (simp add: takeWhile_tail)
  next
    case False
    then show ?thesis by auto
  qed
  with ih show ?case by simp
qed

lemma dropWhile_hd: "xs = [] \<or> \<not> P (hd xs) \<Longrightarrow> dropWhile P xs = xs"
  by (cases xs) auto

lemma strip_char_id:
  assumes "s \<noteq> []" and "hd s \<noteq> c" and "last s \<noteq> c"
  shows "strip_char c s = s"
proof -
  have "dropWhile (\<lambda>x. x = c) s = s"
    using assms by (intro dropWhile_hd) simp
  moreover have "dropWhile (\<lambda>x. x = c) (rev s) = rev s"
    using assms by (intro dropWhile_hd) (simp add: hd_rev)
  ultimately show ?thesis by (simp add: strip_char_def)
qed

lemma py_strip_id:
  assumes "s \<noteq> []" and h: "\<not> is_space (hd s)" and l: "\<not> is_space (last s)"
  shows "py_strip s = s"
proof -
  have "dropWhile is_space s = s"
    using h by (intro dropWhile_hd) simp
  moreover have "dropWhile is_space (rev s) = rev s"
    using l assms(1) by (intro dropWhile_hd) (simp add: hd_rev)
  ultimately show ?thesis by (simp add: py_strip_def)
qed

subsection \<open>Characters of valid components\<close>

lemma not_seg_chars:
  "\<not> is_seg_char (CHR ''/'')" "\<not> is_seg_char (CHR ''@'')" "\<not> is_seg_char (CHR ''?'')"
  "\<not> is_seg_char (CHR ''#'')" "\<not> is_seg_char (CHR ''['')" "\<not> is_seg_char (CHR '']'')"
  by (simp_all add: is_seg_char_def is_alnum_def is_alpha_def is_digit_def)

lemma space_not_seg_char: "is_space c \<Longrightarrow> \<not> is_seg_char c"
proof -
  have "\<forall>c\<in>set [CHR 0x09, CHR 0x0A, CHR 0x0B, CHR 0x0C, CHR 0x0D, CHR 0x1C, CHR 0x1D,
      CHR 0x1E, CHR 0x1F, CHR 0x20, CHR 0x85, CHR 0xA0]. \<not> is_seg_char c"
    by (simp add: is_seg_char_def is_alnum_def is_alpha_def is_digit_def)
  then show "is_space c \<Longrightarrow> \<not> is_seg_char c"
    unfolding is_space_def by blast
qed

lemma seg_char_plain:
  "is_seg_char c \<Longrightarrow>
     c \<noteq> CHR ''/'' \<and> c \<noteq> CHR ''@'' \<and> c \<noteq> CHR ''?'' \<and> c \<noteq> CHR ''#'' \<and> c \<noteq> CHR ''['' \<and> c \<noteq> CHR '']''
     \<and> \<not> is_space c"
  using not_seg_chars space_not_seg_char by blast

lemma alnum_seg_char: "is_alnum c \<Longrightarrow> is_seg_char c"
  by (simp add: is_seg_char_def)

lemma digit_seg_char: "is_digit c \<Longrightarrow> is_seg_char c"
  by (simp add: is_seg_char_def is_alnum_def)

lemma alpha_seg_char: "is_alpha c \<Longrightarrow> is_seg_char c"
  by (simp add: is_seg_char_def is_alnum_def)

lemma ns_char_seg_char: "is_ns_char c \<Longrightarrow> is_seg_char c"
proof -
  assume "is_ns_char c"
  then have "is_alnum c \<or> c = CHR ''_'' \<or> c = CHR ''-''" by (simp add: is_ns_char_def)
  then show "is_seg_char c" by (auto simp add: is_seg_char_def)
qed

lemma nl_not_seg_char: "\<not> is_seg_char chr_nl"
  using space_not_seg_char [of chr_nl] by (simp add: is_space_def chr_nl_def)

lemma chomp_nl_id:
  assumes "chr_nl \<notin> set s"
  shows "chomp_nl s = s"
proof (cases "s = []")
  case True
  then show ?thesis by (simp add: chomp_nl_def)
next
  case False
  then have "last s \<in> set s" by simp
  with assms have "last s \<noteq> chr_nl" by auto
  then show ?thesis by (simp add: chomp_nl_def)
qed

lemma alnum_not_nl:
  assumes "list_all is_alnum v"
  shows "chr_nl \<notin> set v"
proof
  assume "chr_nl \<in> set v"
  with assms have "is_alnum chr_nl" by (simp add: list_all_iff)
  then have "is_seg_char chr_nl" by (rule alnum_seg_char)
  with nl_not_seg_char show False by simp
qed

lemma strict_segment_chars:
  assumes "validate_segment g" and "chr_nl \<notin> set g"
  shows "g \<noteq> []" and "\<forall>c\<in>set g. is_seg_char c"
proof -
  from assms(1) show ne: "g \<noteq> []" by (auto simp add: validate_segment_def)
  then obtain c cs where g: "g = c # cs" by (cases g) auto
  have ch: "chomp_nl g = c # cs" using chomp_nl_id [OF assms(2)] g by simp
  from assms(1) ne have "SEGMENT_PATTERN g" by (simp add: validate_segment_def split: if_splits)
  then have "is_alnum c \<and> list_all is_seg_char cs"
    by (simp add: SEGMENT_PATTERN_def ch)
  then have "is_seg_char c" and "\<forall>x\<in>set cs. is_seg_char x"
    by (simp_all add: alnum_seg_char list_all_iff)
  with g show "\<forall>c\<in>set g. is_seg_char c" by simp
qed

lemma strict_namespace_chars:
  assumes "validate_namespace n" and "chr_nl \<notin> set n"
  shows "n \<noteq> []" and "\<forall>c\<in>set n. is_seg_char c"
proof -
  from assms(1) show ne: "n \<noteq> []" by (auto simp add: validate_namespace_def)
  then obtain c cs where n: "n = c # cs" by (cases n) auto
  have ch: "chomp_nl n = c # cs" using chomp_nl_id [OF assms(2)] n by simp
  from assms(1) ne have "NAMESPACE_PATTERN n" by (simp add: validate_namespace_def split: if_splits)
  then have "is_alpha c \<and> list_all is_ns_char cs"
    by (simp add: NAMESPACE_PATTERN_def ch)
  then have "is_seg_char c" and "\<forall>x\<in>set cs. is_seg_char x"
    by (simp_all add: alpha_seg_char ns_char_seg_char list_all_iff)
  with n show "\<forall>c\<in>set n. is_seg_char c" by simp
qed

subsection \<open>The steps of the parser on a serialized moniker\<close>

lemma ns_step:
  assumes "case ns of None \<Rightarrow> True | Some n \<Rightarrow> validate_namespace n \<and> chr_nl \<notin> set n"
    and "ns = None \<longrightarrow> \<not> (CHR ''@'' \<in> set rest \<and> CHR ''/'' \<notin> set (takeWhile (\<lambda>x. x \<noteq> CHR ''@'') rest))"
  shows "split_namespace True ((case ns of Some n \<Rightarrow> n @ ''@'' | None \<Rightarrow> []) @ rest) = Inr (ns, rest)"
proof (cases ns)
  case None
  with assms(2) show ?thesis by (simp add: split_namespace_eq)
next
  case (Some n)
  with assms(1) have v: "validate_namespace n" and "chr_nl \<notin> set n" by simp_all
  from strict_namespace_chars [OF this] have "\<forall>c\<in>set n. c \<noteq> CHR ''@'' \<and> c \<noteq> CHR ''/''"
    using seg_char_plain by blast
  then have t: "takeWhile (\<lambda>x. x \<noteq> CHR ''@'') (n @ CHR ''@'' # rest) = n"
    and d: "dropWhile (\<lambda>x. x \<noteq> CHR ''@'') (n @ CHR ''@'' # rest) = CHR ''@'' # rest"
    and s: "CHR ''/'' \<notin> set n"
    by auto
  have "split_namespace True (n @ CHR ''@'' # rest) = Inr (Some n, rest)"
    unfolding split_namespace_eq t d using v s by simp
  with Some show ?thesis by simp
qed

lemma rev_step:
  assumes "case rv of None \<Rightarrow> True | Some r \<Rightarrow> 0 \<le> r \<and> r < 10 ^ int_max_str_digits"
    and "rv = None \<longrightarrow> split_revision x = Inr (None, x)"
  shows "split_revision (x @ (case rv of Some r \<Rightarrow> ''/v'' @ decimal r | None \<Rightarrow> [])) = Inr (rv, x)"
proof (cases rv)
  case None
  with assms(2) show ?thesis by simp
next
  case (Some r)
  with assms(1) have "0 \<le> r" and "r < 10 ^ int_max_str_digits" by simp_all
  from split_revision_serialized [OF this, of x] Some show ?thesis by simp
qed

lemma ver_step:
  assumes "case ver of None \<Rightarrow> True | Some v \<Rightarrow> v \<noteq> [] \<and> list_all is_alnum v"
    and "CHR ''@'' \<notin> set pstr"
  shows "split_version True (pstr @ (case ver of Some v \<Rightarrow> ''@'' @ v | None \<Rightarrow> [])) = Inr (ver, pstr)"
proof (cases ver)
  case None
  with assms(2) show ?thesis by (simp add: split_version_none)
next
  case (Some v)
  with assms(1) have ne: "v \<noteq> []" and al: "list_all is_alnum v" by simp_all
  from al have "\<forall>c\<in>set v. is_seg_char c" by (simp add: list_all_iff alnum_seg_char)
  then have pl: "\<forall>c\<in>set v. c \<noteq> CHR ''@'' \<and> c \<noteq> CHR ''/''"
    using seg_char_plain by blast
  then have a: "CHR ''@'' \<notin> set v" and s: "CHR ''/'' \<notin> set v" by auto
  from ne have "last v \<in> set v" by simp
  with alnum_not_nl [OF al] have "last v \<noteq> chr_nl" by auto
  with ne al have vp: "VERSION_PATTERN v" by (simp add: VERSION_PATTERN_plain)
  have "split_version True (pstr @ ''@'' @ v) = Inr (Some v, pstr)"
    unfolding split_version_at_last [OF a] using s ne vp by simp
  with Some show ?thesis by simp
qed

lemma strict_segments:
  assumes "list_all (\<lambda>g. validate_segment g \<and> chr_nl \<notin> set g) segs"
  shows "\<forall>g\<in>set segs. g \<noteq> []" and "\<forall>g\<in>set segs. \<forall>c\<in>set g. is_seg_char c"
    and "\<forall>g\<in>set segs. validate_segment g"
proof -
  from assms have a: "\<forall>g\<in>set segs. validate_segment g \<and> chr_nl \<notin> set g"
    by (simp add: list_all_iff)
  then show "\<forall>g\<in>set segs. validate_segment g" by simp
  from a show "\<forall>g\<in>set segs. g \<noteq> []" using strict_segment_chars(1) by blast
  from a show "\<forall>g\<in>set segs. \<forall>c\<in>set g. is_seg_char c" using strict_segment_chars(2) by blast
qed

lemma path_chars:
  assumes "list_all (\<lambda>g. validate_segment g \<and> chr_nl \<notin> set g) segs"
  shows "\<forall>c\<in>set (py_join ''/'' segs). is_seg_char c \<or> c = CHR ''/''"
proof
  fix c
  assume "c \<in> set (py_join ''/'' segs)"
  with set_py_join [of "''/''" segs] have "c = CHR ''/'' \<or> (\<exists>g\<in>set segs. c \<in> set g)" by auto
  with strict_segments(2) [OF assms] show "is_seg_char c \<or> c = CHR ''/''" by blast
qed

lemma path_step:
  assumes "list_all (\<lambda>g. validate_segment g \<and> chr_nl \<notin> set g) segs"
  shows "parse_path True (py_join ''/'' segs) = Inr segs"
proof (cases "segs = []")
  case True
  then show ?thesis by (simp add: parse_path_def)
next
  case False
  note ne = strict_segments(1) [OF assms]
  note ch = strict_segments(2) [OF assms]
  note va = strict_segments(3) [OF assms]
  from ch have ns: "\<forall>g\<in>set segs. CHR ''/'' \<notin> set g" using seg_char_plain by blast
  let ?p = "py_join ''/'' segs"
  from False ne have pne: "?p \<noteq> []" by (simp add: py_join_Nil_iff)
  from False have hs: "hd segs \<in> set segs" and ls: "last segs \<in> set segs" by simp_all
  with ne have "hd (hd segs) \<in> set (hd segs)" and "last (last segs) \<in> set (last segs)" by simp_all
  with ns hs ls have "hd (hd segs) \<noteq> CHR ''/''" and "last (last segs) \<noteq> CHR ''/''" by auto
  with False ne have "hd ?p \<noteq> CHR ''/''" and "last ?p \<noteq> CHR ''/''"
    by (simp_all add: hd_py_join last_py_join)
  with pne have st: "strip_char (CHR ''/'') ?p = ?p" by (simp add: strip_char_id)
  from False ns have sp: "split_on (CHR ''/'') ?p = segs" by (simp add: split_on_join)
  from va have fn: "find (\<lambda>seg. \<not> validate_segment seg) segs = None" by (simp add: find_None_iff)
  show ?thesis unfolding parse_path_cases st sp fn using pne by simp
qed

lemma split_revision_keeps:
  assumes no: "\<And>a ds. x = a @ ''/v'' @ ds \<Longrightarrow> ds \<noteq> [] \<Longrightarrow> list_all is_digit ds \<Longrightarrow> False"
    and nl: "chr_nl \<notin> set x" and qm: "CHR ''?'' \<notin> set x"
  shows "split_revision x = Inr (None, x)"
proof (cases "split_last ''/v'' x")
  case None
  then show ?thesis by (simp add: split_revision_eq)
next
  case (Some ab)
  obtain a b where ab: "ab = (a, b)" by (cases ab)
  from split_last_Some [OF Some [unfolded ab]] have x: "x = a @ ''/v'' @ b" .
  have "rev_match b = None"
  proof (cases "rev_match b")
    case None
    then show ?thesis .
  next
    case (Some ds)
    from rev_match_Some [OF Some] have ne: "ds \<noteq> []" and dg: "list_all is_digit ds"
      and sh: "b = ds \<or> b = ds @ [chr_nl] \<or> (\<exists>t. b = ds @ ''?'' @ t)" by simp_all
    from sh nl qm x have "b = ds" by auto
    with no [OF _ ne dg] x show ?thesis by simp
  qed
  with Some ab show ?thesis by (simp add: split_revision_eq)
qed

lemma digits_chars: "list_all is_digit ds \<Longrightarrow> \<forall>c\<in>set ds. is_seg_char c"
  by (simp add: list_all_iff digit_seg_char)

lemma v_seg_char: "is_seg_char (CHR ''v'')"
  by (simp add: is_seg_char_def is_alnum_def is_alpha_def)

lemma tail_after_slash_v:
  assumes "list_all is_digit ds"
  shows "takeWhile (\<lambda>c. c \<noteq> CHR ''/'') (rev (a @ ''/v'' @ ds)) = rev (CHR ''v'' # ds)"
proof -
  from digits_chars [OF assms] v_seg_char have "\<forall>c\<in>set (CHR ''v'' # ds). is_seg_char c" by simp
  then have "CHR ''/'' \<notin> set (CHR ''v'' # ds)" using seg_char_plain by blast
  from takeWhile_rev_suffix [OF this, of a] show ?thesis by simp
qed

text \<open>With a version behind the path, the text after the last slash has an at sign, so
  it is not a revision.\<close>

lemma split_revision_versioned:
  assumes "CHR ''/'' \<notin> set v" and "chr_nl \<notin> set (pstr @ ''@'' @ v)" and "CHR ''?'' \<notin> set (pstr @ ''@'' @ v)"
  shows "split_revision (pstr @ ''@'' @ v) = Inr (None, pstr @ ''@'' @ v)"
proof (rule split_revision_keeps [OF _ assms(2,3)])
  fix a ds
  assume x: "pstr @ ''@'' @ v = a @ ''/v'' @ ds" and dg: "list_all is_digit ds"
  let ?t = "\<lambda>s. takeWhile (\<lambda>c. c \<noteq> CHR ''/'') (rev s)"
  from assms(1) have "takeWhile (\<lambda>c. c \<noteq> CHR ''/'') (rev v @ CHR ''@'' # rev pstr)
      = rev v @ takeWhile (\<lambda>c. c \<noteq> CHR ''/'') (CHR ''@'' # rev pstr)"
    by (intro takeWhile_append2) auto
  then have "?t (pstr @ ''@'' @ v) = rev v @ CHR ''@'' # ?t pstr"
    by simp
  then have "CHR ''@'' \<in> set (?t (pstr @ ''@'' @ v))" by simp
  with x tail_after_slash_v [OF dg, of a] have "CHR ''@'' \<in> set (CHR ''v'' # ds)" by simp
  with digits_chars [OF dg] v_seg_char have "is_seg_char (CHR ''@'')" by auto
  with not_seg_chars show False by simp
qed

lemma py_join_single_no_sep:
  "length xs < 2 \<Longrightarrow> \<forall>x\<in>set xs. c \<notin> set x \<Longrightarrow> c \<notin> set (py_join [c] xs)"
  by (cases xs; cases "tl xs") auto

lemma split_revision_path:
  assumes segs: "list_all (\<lambda>g. validate_segment g \<and> chr_nl \<notin> set g) segs"
    and c6: "2 \<le> length segs \<longrightarrow> \<not> is_rev_segment (last segs)"
  shows "split_revision (py_join ''/'' segs) = Inr (None, py_join ''/'' segs)"
proof (rule split_revision_keeps)
  let ?p = "py_join ''/'' segs"
  note pc = path_chars [OF segs]
  show "chr_nl \<notin> set ?p" using pc nl_not_seg_char by (auto simp add: chr_nl_def)
  show "CHR ''?'' \<notin> set ?p" using pc not_seg_chars by auto
  fix a ds
  assume x: "?p = a @ ''/v'' @ ds" and ne: "ds \<noteq> []" and dg: "list_all is_digit ds"
  from strict_segments(2) [OF segs] have ns: "\<forall>g\<in>set segs. CHR ''/'' \<notin> set g"
    using seg_char_plain by blast
  from x have "CHR ''/'' \<in> set ?p" by simp
  with py_join_single_no_sep [OF _ ns] have len: "2 \<le> length segs" by (cases "length segs < 2") auto
  then have "segs \<noteq> []" by auto
  from takeWhile_rev_py_join [OF this ns] x tail_after_slash_v [OF dg, of a]
  have "rev (last segs) = rev (CHR ''v'' # ds)" by simp
  then have "last segs = CHR ''v'' # ds" by (simp only: rev_is_rev_conv)
  with ne dg have "is_rev_segment (last segs)" by (simp add: is_rev_segment_def)
  with c6 len show False by simp
qed

subsection \<open>The scheme step on a serialized moniker\<close>

lemma takeWhile_stop: "t = [] \<or> \<not> P (hd t) \<Longrightarrow> takeWhile P (b @ t) = takeWhile P b"
  by (induction b) (auto, cases t, auto)

lemma dropWhile_stop: "t = [] \<or> \<not> P (hd t) \<Longrightarrow> dropWhile P (b @ t) = dropWhile P b @ t"
  by (induction b) (auto, cases t, auto)

lemma takeWhile_all_stop:
  "\<forall>c\<in>set b. P c \<Longrightarrow> t = [] \<or> \<not> P (hd t) \<Longrightarrow> takeWhile P (b @ t) = b"
  by (cases t) auto

lemma dropWhile_all_stop:
  "\<forall>c\<in>set b. P c \<Longrightarrow> t = [] \<or> \<not> P (hd t) \<Longrightarrow> dropWhile P (b @ t) = t"
  by (cases t) auto

lemma removed_is_space: "is_removed c \<Longrightarrow> is_space c"
  by (auto simp add: is_removed_def is_space_def)

lemma filter_none_removed:
  assumes "\<forall>c\<in>set s. \<not> is_removed c"
  shows "filter (\<lambda>c. c \<notin> set [CHR 0x09, CHR 0x0A, CHR 0x0D]) s = s"
proof -
  have "\<forall>c\<in>set s. c \<notin> set [CHR 0x09, CHR 0x0A, CHR 0x0D]"
    using assms unfolding is_removed_def by blast
  then show ?thesis by (simp only: filter_id_conv)
qed

lemma urlparse_serialized:
  assumes b: "\<forall>c\<in>set b. is_seg_char c \<or> c = CHR ''/'' \<or> c = CHR ''@''"
    and t: "t = [] \<or> hd t = CHR ''?''"
    and tc: "\<forall>c\<in>set t. c \<noteq> CHR ''#'' \<and> \<not> is_removed c"
  shows "urlparse L (''moniker://'' @ b @ t)
           = Inr (takeWhile (\<lambda>c. c \<notin> set ''/?#'') b, dropWhile (\<lambda>c. c \<notin> set ''/?#'') b, drop 1 t)"
proof -
  define P :: "char \<Rightarrow> bool" where "P = (\<lambda>c. c \<notin> set ''/?#'')"
  define nl where "nl = takeWhile P b"
  define d where "d = dropWhile P b"
  let ?s = "''moniker://'' @ b @ t"
  have bp: "\<forall>c\<in>set b. c \<noteq> CHR ''?'' \<and> c \<noteq> CHR ''#'' \<and> c \<noteq> CHR ''['' \<and> c \<noteq> CHR '']'' \<and> \<not> is_space c"
  proof (rule ballI)
    fix c
    assume "c \<in> set b"
    with b have "is_seg_char c \<or> c = CHR ''/'' \<or> c = CHR ''@''" by simp
    moreover have "\<not> is_space (CHR ''/'')" and "\<not> is_space (CHR ''@'')" by (simp_all add: is_space_def)
    ultimately show "c \<noteq> CHR ''?'' \<and> c \<noteq> CHR ''#'' \<and> c \<noteq> CHR ''['' \<and> c \<noteq> CHR '']'' \<and> \<not> is_space c"
      using seg_char_plain [of c] by auto
  qed
  have m: "\<forall>c\<in>set ''moniker://''. \<not> is_removed c" by (simp add: is_removed_def)
  have "\<forall>c\<in>set ?s. \<not> is_removed c"
  proof (rule ballI)
    fix c
    assume "c \<in> set ?s"
    then have "c \<in> set ''moniker://'' \<or> c \<in> set b \<or> c \<in> set t" by (simp only: set_append Un_iff)
    with m bp tc removed_is_space [of c] show "\<not> is_removed c" by blast
  qed
  from filter_none_removed [OF this] have f: "filter (\<lambda>c. c \<notin> set [CHR 0x09, CHR 0x0A, CHR 0x0D]) ?s = ?s" .
  have r: "drop 10 ?s = b @ t" by simp
  from t have st: "t = [] \<or> \<not> P (hd t)" by (auto simp add: P_def)
  have n: "takeWhile P (b @ t) = nl" unfolding nl_def by (rule takeWhile_stop [of t P b, OF st])
  have u: "dropWhile P (b @ t) = d @ t" unfolding d_def by (rule dropWhile_stop [of t P b, OF st])
  have nlb: "set nl \<subseteq> set b" unfolding nl_def by (auto dest: set_takeWhileD)
  have db: "set d \<subseteq> set b" unfolding d_def by (auto dest: set_dropWhileD)
  from nlb bp have nb: "CHR ''['' \<notin> set nl" "CHR '']'' \<notin> set nl" by blast+
  from db bp have dq': "\<forall>c\<in>set d. c \<noteq> CHR ''?''" and dh: "\<forall>c\<in>set d. c \<noteq> CHR ''#''" by blast+
  from dh tc have "\<forall>c\<in>set (d @ t). c \<noteq> CHR ''#''" by auto
  then have h: "takeWhile (\<lambda>c. c \<noteq> CHR ''#'') (d @ t) = d @ t"
    by (simp only: takeWhile_eq_all_conv)
  from t have sq: "t = [] \<or> \<not> (hd t \<noteq> CHR ''?'')" by simp
  have p: "takeWhile (\<lambda>c. c \<noteq> CHR ''?'') (d @ t) = d"
    using dq' sq by (intro takeWhile_all_stop) simp_all
  have q: "dropWhile (\<lambda>c. c \<noteq> CHR ''?'') (d @ t) = t"
    using dq' sq by (intro dropWhile_all_stop) simp_all
  have "urlparse L ?s = Inr (nl, d, drop 1 t)"
    unfolding urlparse_def Let_def f r P_def [symmetric] n u h p q using nb by simp
  then show ?thesis by (simp add: nl_def d_def P_def)
qed

lemma split_scheme_serialized:
  assumes b: "\<forall>c\<in>set b. is_seg_char c \<or> c = CHR ''/'' \<or> c = CHR ''@''"
    and t: "t = [] \<or> hd t = CHR ''?''"
    and tc: "\<forall>c\<in>set t. c \<noteq> CHR ''#'' \<and> \<not> is_removed c"
  shows "split_scheme L (''moniker://'' @ b @ t) = Inr (b, drop 1 t)"
proof -
  have "startswith (''moniker://'' @ b @ t) ''moniker://''" by (simp add: startswith_def)
  then show ?thesis
    unfolding split_scheme_def urlparse_serialized [OF assms] by simp
qed

subsection \<open>The query parameters of a serialized moniker\<close>

lemma query_value_chars:
  assumes "query_value x" and "c \<in> set x"
  shows "c \<noteq> CHR ''&''" "c \<noteq> CHR ''#''" "c \<noteq> CHR ''+''" "c \<noteq> CHR ''%''" "\<not> is_removed c"
proof -
  from assms have "c \<notin> set ''&#+%'' \<and> \<not> is_removed c" by (simp add: query_value_def list_all_iff)
  then show "c \<noteq> CHR ''&''" "c \<noteq> CHR ''#''" "c \<noteq> CHR ''+''" "c \<noteq> CHR ''%''" "\<not> is_removed c"
    by simp_all
qed

lemma split1_pair:
  assumes "c \<notin> set k"
  shows "split1 c (k @ c # v) = (k, v)"
proof -
  from assms have a: "\<forall>x\<in>set k. x \<noteq> c" by auto
  then have "takeWhile (\<lambda>x. x \<noteq> c) (k @ c # v) = k" by (induction k) auto
  moreover from a have "dropWhile (\<lambda>x. x \<noteq> c) (k @ c # v) = c # v" by (induction k) auto
  ultimately show ?thesis by (simp add: split1_def)
qed

lemma unquote_plus_id:
  assumes "CHR ''+'' \<notin> set x" and "CHR ''%'' \<notin> set x"
  shows "unquote_plus L x = x"
proof -
  from assms(1) have "map (\<lambda>c. if c = CHR ''+'' then CHR '' '' else c) x = x"
    by (induction x) auto
  with assms(2) show ?thesis by (simp add: unquote_plus_def unquote_def)
qed

lemma first_values_distinct: "distinct (map fst (acc @ ps)) \<Longrightarrow> first_values acc ps = acc @ ps"
proof (induction ps arbitrary: acc)
  case Nil
  then show ?case by simp
next
  case (Cons p ps)
  obtain k v where p: "p = (k, v)" by (cases p)
  from Cons.prems p have "k \<notin> set (map fst acc)" by auto
  moreover from Cons.prems p have "distinct (map fst ((acc @ [(k, v)]) @ ps))" by simp
  ultimately show ?case using Cons.IH [of "acc @ [(k, v)]"] p by simp
qed

text \<open>One rendered pair reads back as itself.\<close>

lemma parse_field:
  assumes "query_name k" and "query_value v"
  shows "(if CHR ''='' \<in> set (k @ ''='' @ v)
          then (case split1 (CHR ''='') (k @ ''='' @ v) of (n, w) \<Rightarrow> (unquote_plus L n, unquote_plus L w))
          else (unquote_plus L (k @ ''='' @ v), [])) = (k, v)"
proof -
  from assms(1) have kv: "query_value k" and ke: "CHR ''='' \<notin> set k" by (simp_all add: query_name_def)
  from query_value_chars [OF kv] have k: "CHR ''+'' \<notin> set k" "CHR ''%'' \<notin> set k"
    by blast+
  from query_value_chars [OF assms(2)] have v: "CHR ''+'' \<notin> set v" "CHR ''%'' \<notin> set v"
    by blast+
  have "split1 (CHR ''='') (k @ ''='' @ v) = (k, v)" using split1_pair [OF ke, of v] by simp
  then show ?thesis by (simp add: unquote_plus_id k v)
qed

lemma parse_params_serialized:
  assumes ne: "ps \<noteq> []" and di: "distinct (map fst ps)"
    and sa: "list_all (\<lambda>(k, v). query_name k \<and> query_value v) ps"
  shows "parse_params L (py_join ''&'' (map (\<lambda>(k, v). k @ ''='' @ v) ps)) = ps"
proof -
  define R :: "string \<times> string \<Rightarrow> string" where "R = (\<lambda>(k, v). k @ ''='' @ v)"
  define F where "F = (\<lambda>name_value.
                if CHR ''='' \<in> set name_value
                then (case split1 (CHR ''='') name_value of (n, v) \<Rightarrow> (unquote_plus L n, unquote_plus L v))
                else (unquote_plus L name_value, []))"
  let ?xs = "map R ps"
  from sa have safe: "\<And>k v. (k, v) \<in> set ps \<Longrightarrow> query_name k \<and> query_value v"
    by (auto simp add: list_all_iff)
  have FR: "F (R p) = p" if "p \<in> set ps" for p
  proof -
    obtain k v where p: "p = (k, v)" by (cases p)
    with that safe have "query_name k" "query_value v" by auto
    from parse_field [OF this, of L] p show ?thesis by (simp add: F_def R_def)
  qed
  have amp: "\<forall>x\<in>set ?xs. CHR ''&'' \<notin> set x"
  proof
    fix x assume "x \<in> set ?xs"
    then obtain k v where kv: "(k, v) \<in> set ps" and x: "x = k @ ''='' @ v" by (auto simp add: R_def)
    from safe [OF kv] have "query_value k" "query_value v" by (simp_all add: query_name_def)
    then have "CHR ''&'' \<notin> set k" "CHR ''&'' \<notin> set v" using query_value_chars(1) by blast+
    with x show "CHR ''&'' \<notin> set x" by simp
  qed
  have nonempty: "\<forall>x\<in>set ?xs. x \<noteq> []" by (auto simp add: R_def)
  from ne have xne: "?xs \<noteq> []" by simp
  with nonempty have jne: "py_join ''&'' ?xs \<noteq> []" by (simp add: py_join_Nil_iff)
  from split_on_join [OF xne amp] have sp: "split_on (CHR ''&'') (py_join ''&'' ?xs) = ?xs" by simp
  from nonempty have fi: "filter (\<lambda>name_value. name_value \<noteq> []) ?xs = ?xs" by (simp only: filter_id_conv)
  have mp: "map F ?xs = ps" using FR by (simp add: map_idI)
  have "parse_qsl L (py_join ''&'' ?xs) = ps"
    unfolding parse_qsl_def Let_def F_def [symmetric] using jne by (simp only: if_False sp fi mp)
  with jne di first_values_distinct [of "[]" ps] show ?thesis
    by (simp add: parse_params_def R_def)
qed

lemma query_text_chars:
  assumes sa: "list_all (\<lambda>(k, v). query_name k \<and> query_value v) ps"
  shows "\<forall>c\<in>set (py_join ''&'' (map (\<lambda>(k, v). k @ ''='' @ v) ps)). c \<noteq> CHR ''#'' \<and> \<not> is_removed c"
proof
  fix c
  assume "c \<in> set (py_join ''&'' (map (\<lambda>(k, v). k @ ''='' @ v) ps))"
  with set_py_join [of "''&''" "map (\<lambda>(k, v). k @ ''='' @ v) ps"]
  have "c = CHR ''&'' \<or> (\<exists>k v. (k, v) \<in> set ps \<and> c \<in> set (k @ ''='' @ v))" by auto
  then consider "c = CHR ''&''" | "c = CHR ''=''" | k v where "(k, v) \<in> set ps" "c \<in> set k \<or> c \<in> set v"
    by auto
  then show "c \<noteq> CHR ''#'' \<and> \<not> is_removed c"
  proof cases
    case 1
    then show ?thesis by (simp add: is_removed_def)
  next
    case 2
    then show ?thesis by (simp add: is_removed_def)
  next
    case 3
    with sa have "query_value k" "query_value v" by (auto simp add: list_all_iff query_name_def)
    with 3(2) show ?thesis using query_value_chars(2,5) by blast
  qed
qed

text \<open>The serialized parameters end in the last character of the last value, or in the
  equals sign before an empty last value.\<close>

lemma query_text_last:
  assumes "ps \<noteq> []" and "\<not> ends_in_space (snd (last ps))"
  shows "\<not> is_space (last (py_join ''&'' (map (\<lambda>(k, v). k @ ''='' @ v) ps)))"
proof -
  define R :: "string \<times> string \<Rightarrow> string" where "R = (\<lambda>(k, v). k @ ''='' @ v)"
  have nonempty: "\<forall>x\<in>set (map R ps). x \<noteq> []" by (auto simp add: R_def)
  from assms(1) have "map R ps \<noteq> []" by simp
  from last_py_join [OF this nonempty, of "''&''"] assms(1)
  have l: "last (py_join ''&'' (map R ps)) = last (R (last ps))" by (simp add: last_map)
  obtain k v where kv: "last ps = (k, v)" by (cases "last ps")
  have "\<not> is_space (last (k @ ''='' @ v))"
  proof (cases "v = []")
    case True
    then show ?thesis by (simp add: is_space_def)
  next
    case False
    with assms(2) kv show ?thesis by (simp add: ends_in_space_def)
  qed
  with l kv show ?thesis by (simp add: R_def)
qed

subsection \<open>Parsing a serialized moniker\<close>

lemma revision_text_chars:
  assumes "case rv of None \<Rightarrow> True | Some r \<Rightarrow> 0 \<le> r"
  shows "\<forall>c\<in>set (case rv of Some r \<Rightarrow> ''/v'' @ decimal r | None \<Rightarrow> []). is_seg_char c \<or> c = CHR ''/''"
proof (cases rv)
  case None
  then show ?thesis by simp
next
  case (Some r)
  with assms have "decimal r = nat_digits (nat r)" by (simp add: decimal_nonneg)
  with Some digits_chars [OF nat_digits_digits, of "nat r"] v_seg_char show ?thesis by auto
qed

lemma version_text_chars:
  assumes "case ver of None \<Rightarrow> True | Some v \<Rightarrow> v \<noteq> [] \<and> list_all is_alnum v"
  shows "\<forall>c\<in>set (case ver of Some v \<Rightarrow> ''@'' @ v | None \<Rightarrow> []). is_seg_char c \<or> c = CHR ''@''"
proof (cases ver)
  case None
  then show ?thesis by simp
next
  case (Some v)
  with assms have "\<forall>c\<in>set v. is_seg_char c" by (simp add: list_all_iff alnum_seg_char)
  with Some show ?thesis by auto
qed

lemma namespace_text_chars:
  assumes "case ns of None \<Rightarrow> True | Some n \<Rightarrow> validate_namespace n \<and> chr_nl \<notin> set n"
  shows "\<forall>c\<in>set (case ns of Some n \<Rightarrow> n @ ''@'' | None \<Rightarrow> []). is_seg_char c \<or> c = CHR ''@''"
proof (cases ns)
  case None
  then show ?thesis by simp
next
  case (Some n)
  with assms strict_namespace_chars(2) [of n] have "\<forall>c\<in>set n. is_seg_char c" by simp
  with Some show ?thesis by auto
qed

lemma py_join_two_has_sep: "2 \<le> length xs \<Longrightarrow> c \<in> set (py_join [c] xs)"
  by (cases xs; cases "tl xs") auto

text \<open>After the namespace step: the revision, version and path steps on the rest.\<close>

lemma parse_suffixes_serialized:
  assumes segs: "list_all (\<lambda>g. validate_segment g \<and> chr_nl \<notin> set g) segs"
    and ver: "case ver of None \<Rightarrow> True | Some v \<Rightarrow> v \<noteq> [] \<and> list_all is_alnum v"
    and rv: "case rv of None \<Rightarrow> True | Some r \<Rightarrow> 0 \<le> r \<and> r < 10 ^ int_max_str_digits"
    and c6: "rv = None \<and> ver = None \<and> 2 \<le> length segs \<longrightarrow> \<not> is_rev_segment (last segs)"
  shows "parse_suffixes L True ns
           (py_join ''/'' segs @ (case ver of Some v \<Rightarrow> ''@'' @ v | None \<Rightarrow> [])
              @ (case rv of Some r \<Rightarrow> ''/v'' @ decimal r | None \<Rightarrow> [])) q
         = Inr \<lparr> path = segs, namespace = ns, version = ver, revision = rv, params = parse_params L q \<rparr>"
proof -
  let ?p = "py_join ''/'' segs"
  let ?v = "case ver of Some v \<Rightarrow> ''@'' @ v | None \<Rightarrow> []"
  let ?r = "case rv of Some r \<Rightarrow> ''/v'' @ decimal r | None \<Rightarrow> []"
  note pc = path_chars [OF segs]
  from pc not_seg_chars have pat: "CHR ''@'' \<notin> set ?p" by auto
  have keep: "split_revision (?p @ ?v) = Inr (None, ?p @ ?v)" if "rv = None"
  proof (cases ver)
    case None
    with that c6 have "2 \<le> length segs \<longrightarrow> \<not> is_rev_segment (last segs)" by simp
    from split_revision_path [OF segs this] None show ?thesis by simp
  next
    case (Some v)
    with ver have al: "list_all is_alnum v" by simp
    then have vc: "\<forall>c\<in>set v. is_seg_char c" by (simp add: list_all_iff alnum_seg_char)
    with seg_char_plain have vs: "CHR ''/'' \<notin> set v" by blast
    have all: "\<forall>c\<in>set (?p @ ''@'' @ v). is_seg_char c \<or> c = CHR ''/'' \<or> c = CHR ''@''"
      using pc vc by auto
    have "chr_nl \<notin> set (?p @ ''@'' @ v)"
      using all nl_not_seg_char by (auto simp add: chr_nl_def)
    moreover have "CHR ''?'' \<notin> set (?p @ ''@'' @ v)"
      using all not_seg_chars by auto
    ultimately have "split_revision (?p @ ''@'' @ v) = Inr (None, ?p @ ''@'' @ v)"
      by (rule split_revision_versioned [OF vs])
    with Some show ?thesis by simp
  qed
  then have sr: "split_revision ((?p @ ?v) @ ?r) = Inr (rv, ?p @ ?v)"
    by (intro rev_step [OF rv]) simp
  have sv: "split_version True (?p @ ?v) = Inr (ver, ?p)"
    by (rule ver_step [OF ver pat])
  have pp: "parse_path True ?p = Inr segs"
    by (rule path_step [OF segs])
  from sr have sr': "split_revision (?p @ ?v @ ?r) = Inr (rv, ?p @ ?v)" by simp
  show ?thesis
    unfolding parse_suffixes_def sr' by (simp add: sv pp)
qed

text \<open>The namespace step on a serialized body.\<close>

lemma split_namespace_serialized:
  assumes segs: "list_all (\<lambda>g. validate_segment g \<and> chr_nl \<notin> set g) segs"
    and ns: "case ns of None \<Rightarrow> True | Some n \<Rightarrow> validate_namespace n \<and> chr_nl \<notin> set n"
    and ver: "case ver of None \<Rightarrow> True | Some v \<Rightarrow> v \<noteq> [] \<and> list_all is_alnum v"
    and rv: "case rv of None \<Rightarrow> True | Some r \<Rightarrow> 0 \<le> r"
    and c5: "ver \<noteq> None \<longrightarrow> ns \<noteq> None \<or> 2 \<le> length segs"
  shows "split_namespace True
           ((case ns of Some n \<Rightarrow> n @ ''@'' | None \<Rightarrow> [])
            @ py_join ''/'' segs @ (case ver of Some v \<Rightarrow> ''@'' @ v | None \<Rightarrow> [])
              @ (case rv of Some r \<Rightarrow> ''/v'' @ decimal r | None \<Rightarrow> []))
         = Inr (ns, py_join ''/'' segs @ (case ver of Some v \<Rightarrow> ''@'' @ v | None \<Rightarrow> [])
              @ (case rv of Some r \<Rightarrow> ''/v'' @ decimal r | None \<Rightarrow> []))"
proof (rule ns_step [OF ns], rule impI)
  let ?p = "py_join ''/'' segs"
  let ?r = "case rv of Some r \<Rightarrow> ''/v'' @ decimal r | None \<Rightarrow> []"
  let ?rest = "?p @ (case ver of Some v \<Rightarrow> ''@'' @ v | None \<Rightarrow> []) @ ?r"
  assume nn: "ns = None"
  note pc = path_chars [OF segs]
  note rc = revision_text_chars [OF rv]
  from pc not_seg_chars have pat: "\<forall>c\<in>set ?p. c \<noteq> CHR ''@''" by auto
  show "\<not> (CHR ''@'' \<in> set ?rest \<and> CHR ''/'' \<notin> set (takeWhile (\<lambda>x. x \<noteq> CHR ''@'') ?rest))"
  proof (cases ver)
    case None
    from pc rc not_seg_chars have "CHR ''@'' \<notin> set (?p @ ?r)" by auto
    with None show ?thesis by simp
  next
    case (Some v)
    with c5 nn have "2 \<le> length segs" by simp
    from py_join_two_has_sep [OF this] have sl: "CHR ''/'' \<in> set ?p" by simp
    from pat have "takeWhile (\<lambda>x. x \<noteq> CHR ''@'') (?p @ CHR ''@'' # v @ ?r) = ?p"
      by (induction ?p) auto
    with sl Some show ?thesis by simp
  qed
qed

lemma moniker_rebuild:
  "\<lparr> path = path m, namespace = namespace m, version = v, revision = revision m, params = params m \<rparr>
     = m\<lparr> version := v \<rparr>"
  by (cases m) simp

text \<open>The serialization of a moniker whose revision is within the digit limit.\<close>

lemma moniker_to_str_in_limit:
  assumes "revision_in_limit m"
  shows "moniker_to_str m =
           Inr (''moniker://''
                @ ((case namespace m of Some n \<Rightarrow> if n \<noteq> [] then n @ ''@'' else [] | None \<Rightarrow> [])
                   @ py_join ''/'' (path m)
                   @ (case version m of Some v \<Rightarrow> if v \<noteq> [] then ''@'' @ v else [] | None \<Rightarrow> [])
                   @ (case revision m of Some r \<Rightarrow> ''/v'' @ decimal r | None \<Rightarrow> []))
                @ (if params m \<noteq> [] then ''?'' @ py_join ''&'' (map (\<lambda>(k, v). k @ ''='' @ v) (params m))
                   else []))"
proof (cases "revision m")
  case None
  then show ?thesis by (simp add: moniker_to_str_def Let_def)
next
  case (Some r)
  with assms have "\<bar>r\<bar> < 10 ^ int_max_str_digits" by (simp add: revision_in_limit_def)
  then have "py_str_int r = Some (decimal r)" by (simp add: py_str_int_eq)
  with Some show ?thesis by (simp add: moniker_to_str_def Let_def)
qed

lemma moniker_to_str_beyond_limit:
  "\<not> revision_in_limit m \<Longrightarrow> moniker_to_str m = Inl IntValueError"
  by (cases "revision m") (simp_all add: revision_in_limit_def moniker_to_str_def py_str_int_eq)

text \<open>
  Parsing what a canonical moniker serializes to gives the moniker back, an empty version
  string reading back as no version.
\<close>

lemma parse_serialized:
  assumes "canonical m" and lim: "revision_in_limit m"
  shows "\<exists>s. moniker_to_str m = Inr s
           \<and> parse_moniker L True s
               = Inr (m\<lparr> version := (if version m = Some [] then None else version m) \<rparr>)"
proof -
  define ns where "ns = namespace m"
  define segs where "segs = path m"
  define ver where "ver = (if version m = Some [] then None else version m)"
  define rv where "rv = revision m"
  define ps where "ps = params m"
  define ntxt where "ntxt = (case ns of Some n \<Rightarrow> n @ ''@'' | None \<Rightarrow> [])"
  define rest where "rest = py_join ''/'' segs @ (case ver of Some v \<Rightarrow> ''@'' @ v | None \<Rightarrow> [])
              @ (case rv of Some r \<Rightarrow> ''/v'' @ decimal r | None \<Rightarrow> [])"
  define pq where "pq = py_join ''&'' (map (\<lambda>(k, v). k @ ''='' @ v) ps)"
  define t where "t = (if ps \<noteq> [] then ''?'' @ pq else [])"
  from assms(1) have segs: "list_all (\<lambda>g. validate_segment g \<and> chr_nl \<notin> set g) segs"
    and ns: "case ns of None \<Rightarrow> True | Some n \<Rightarrow> validate_namespace n \<and> chr_nl \<notin> set n"
    and ver0: "case version m of None \<Rightarrow> True | Some v \<Rightarrow> list_all is_alnum v"
    and rv: "case rv of None \<Rightarrow> True | Some r \<Rightarrow> 0 \<le> r"
    and c5': "truthy (version m) \<longrightarrow> ns \<noteq> None \<or> 2 \<le> length segs"
    and c6': "rv = None \<and> \<not> truthy (version m) \<and> 2 \<le> length segs \<longrightarrow> \<not> is_rev_segment (last segs)"
    and di: "distinct (map fst ps)"
    and sa: "list_all (\<lambda>(k, v). query_name k \<and> query_value v) ps"
    and en: "ps \<noteq> [] \<longrightarrow> \<not> ends_in_space (snd (last ps))"
    unfolding canonical_def ns_def segs_def rv_def ps_def by blast+
  have rvb: "case rv of None \<Rightarrow> True | Some r \<Rightarrow> 0 \<le> r \<and> r < 10 ^ int_max_str_digits"
  proof (cases rv)
    case None
    then show ?thesis by simp
  next
    case (Some r)
    with rv have "0 \<le> r" by simp
    moreover from lim Some have "\<bar>r\<bar> < 10 ^ int_max_str_digits"
      by (simp add: revision_in_limit_def rv_def)
    ultimately show ?thesis using Some by simp
  qed
  have tr: "truthy (version m) \<longleftrightarrow> ver \<noteq> None"
    unfolding ver_def by (cases "version m") auto
  from ver0 have ver: "case ver of None \<Rightarrow> True | Some v \<Rightarrow> v \<noteq> [] \<and> list_all is_alnum v"
    unfolding ver_def by (cases "version m") auto
  from c5' tr have c5: "ver \<noteq> None \<longrightarrow> ns \<noteq> None \<or> 2 \<le> length segs" by simp
  from c6' tr have c6: "rv = None \<and> ver = None \<and> 2 \<le> length segs \<longrightarrow> \<not> is_rev_segment (last segs)" by simp
  have nne: "n \<noteq> []" if "ns = Some n" for n
    using ns that strict_namespace_chars(1) [of n] by simp
  have vtxt: "(case version m of Some v \<Rightarrow> if v \<noteq> [] then ''@'' @ v else [] | None \<Rightarrow> [])
      = (case ver of Some v \<Rightarrow> ''@'' @ v | None \<Rightarrow> [])"
    unfolding ver_def by (cases "version m") auto
  have ntxt': "(case namespace m of Some n \<Rightarrow> if n \<noteq> [] then n @ ''@'' else [] | None \<Rightarrow> []) = ntxt"
    unfolding ntxt_def using nne by (cases ns) (auto simp add: ns_def)
  define s where "s = ''moniker://'' @ (ntxt @ rest) @ t"
  have str: "moniker_to_str m = Inr s"
    unfolding moniker_to_str_in_limit [OF lim] ntxt' vtxt
    by (simp add: s_def rest_def t_def pq_def segs_def rv_def ps_def)
  have bc: "\<forall>c\<in>set (ntxt @ rest). is_seg_char c \<or> c = CHR ''/'' \<or> c = CHR ''@''"
    using namespace_text_chars [OF ns] path_chars [OF segs] version_text_chars [OF ver]
      revision_text_chars [OF rv]
    unfolding ntxt_def rest_def by (simp only: set_append Un_iff ball_Un) blast
  have t_hd: "t = [] \<or> hd t = CHR ''?''" by (simp add: t_def)
  have tc: "\<forall>c\<in>set t. c \<noteq> CHR ''#'' \<and> \<not> is_removed c"
    using query_text_chars [OF sa] by (auto simp add: t_def pq_def is_removed_def)
  define q where "q = drop 1 t"
  have sc: "split_scheme L s = Inr (ntxt @ rest, q)"
    unfolding q_def s_def by (rule split_scheme_serialized [OF bc t_hd tc])
  have sne: "s \<noteq> []" by (simp add: s_def)
  have hs: "\<not> is_space (hd s)" by (simp add: s_def is_space_def)
  have ls: "\<not> is_space (last s)"
  proof (cases "ps = []")
    case False
    with en have "\<not> ends_in_space (snd (last ps))" by simp
    from query_text_last [OF False this] have "\<not> is_space (last pq)" by (simp add: pq_def)
    moreover have "pq \<noteq> []"
    proof -
      have "\<forall>x\<in>set (map (\<lambda>(k, v). k @ ''='' @ v) ps). x \<noteq> []" by auto
      from py_join_Nil_iff [OF this, of "''&''"] False show ?thesis by (simp add: pq_def)
    qed
    ultimately show ?thesis using False by (simp add: s_def t_def)
  next
    case True
    then have te: "t = []" by (simp add: t_def)
    show ?thesis
    proof (cases "ntxt @ rest = []")
      case True
      with te show ?thesis by (simp add: s_def is_space_def)
    next
      case False
      then have "last (ntxt @ rest) \<in> set (ntxt @ rest)" by (rule last_in_set)
      with bc have "is_seg_char (last (ntxt @ rest)) \<or> last (ntxt @ rest) = CHR ''/''
          \<or> last (ntxt @ rest) = CHR ''@''" by blast
      moreover have "\<not> is_space (CHR ''/'')" and "\<not> is_space (CHR ''@'')" by (simp_all add: is_space_def)
      ultimately have "\<not> is_space (last (ntxt @ rest))"
        using seg_char_plain [of "last (ntxt @ rest)"] by auto
      moreover have "last (''moniker://'' @ (ntxt @ rest)) = last (ntxt @ rest)"
        using False by (rule last_appendR)
      with te have "last s = last (ntxt @ rest)" by (simp only: s_def append_Nil2)
      ultimately show ?thesis by simp
    qed
  qed
  have st: "py_strip s = s"
    by (rule py_strip_id [OF sne hs ls])
  have qp: "parse_params L q = ps"
  proof (cases "ps = []")
    case True
    then show ?thesis by (simp add: q_def t_def parse_params_def)
  next
    case False
    with parse_params_serialized [OF False di sa, of L] show ?thesis by (simp add: q_def t_def pq_def)
  qed
  have sn: "split_namespace True (ntxt @ rest) = Inr (ns, rest)"
    unfolding ntxt_def rest_def by (rule split_namespace_serialized [OF segs ns ver rv c5])
  have su: "parse_suffixes L True ns rest q
      = Inr \<lparr> path = segs, namespace = ns, version = ver, revision = rv, params = parse_params L q \<rparr>"
    unfolding rest_def by (rule parse_suffixes_serialized [OF segs ver rvb c6])
  from sc st have "split_scheme L (py_strip s) = Inr (ntxt @ rest, q)"
    by (simp only:)
  from parse_moniker_nonempty [OF sne this, of True]
  have "parse_moniker L True s
      = Inr \<lparr> path = segs, namespace = ns, version = ver, revision = rv, params = ps \<rparr>"
    by (simp add: sn su qp)
  then have "parse_moniker L True s
      = Inr (m\<lparr> version := (if version m = Some [] then None else version m) \<rparr>)"
    by (simp add: segs_def ns_def rv_def ps_def ver_def moniker_rebuild)
  with str show ?thesis by blast
qed

lemma revision_in_limit_version:
  "revision_in_limit (m\<lparr> version := v \<rparr>) = revision_in_limit m"
  by (simp add: revision_in_limit_def)

lemma moniker_to_str_empty_version:
  "moniker_to_str (m\<lparr> version := (if version m = Some [] then None else version m) \<rparr>) = moniker_to_str m"
proof (cases "revision_in_limit m")
  case True
  then have "revision_in_limit (m\<lparr> version := (if version m = Some [] then None else version m) \<rparr>)"
    by (simp only: revision_in_limit_version)
  from moniker_to_str_in_limit [OF this] moniker_to_str_in_limit [OF True] show ?thesis
    by (cases "version m") auto
next
  case False
  then have "\<not> revision_in_limit (m\<lparr> version := (if version m = Some [] then None else version m) \<rparr>)"
    by (simp add: revision_in_limit_version)
  from moniker_to_str_beyond_limit [OF this] moniker_to_str_beyond_limit [OF False] show ?thesis
    by simp
qed

text \<open>A moniker that the parser returns has its revision within the digit limit.\<close>

lemma parse_moniker_revision:
  assumes "parse_moniker L validate s = Inr m"
  shows "revision_in_limit m"
proof -
  from assms have sne: "s \<noteq> []" by (auto simp add: parse_moniker_def)
  from assms sne obtain body q where sc: "split_scheme L (py_strip s) = Inr (body, q)"
    by (cases "split_scheme L (py_strip s)") (auto simp add: parse_moniker_def)
  note pm = parse_moniker_nonempty [OF sne sc, of validate]
  from assms pm obtain ns r where "parse_suffixes L validate ns r q = Inr m"
    by (cases "split_namespace validate body") auto
  from parse_suffixes_revision [OF this] obtain r2 where sr: "split_revision r = Inr (revision m, r2)" ..
  show ?thesis
  proof (cases "revision m")
    case None
    then show ?thesis by (simp add: revision_in_limit_def)
  next
    case (Some n)
    with sr split_revision_bound [of r n r2] have "0 \<le> n \<and> n < 10 ^ int_max_str_digits" by simp
    with Some show ?thesis by (simp add: revision_in_limit_def)
  qed
qed

lemmas canonical_defs = canonical_def is_rev_segment_def query_name_def query_value_def
  ends_in_space_def is_removed_def

subsection \<open>The dialects\<close>

lemma fstring_eq:
  "fstring before v after =
     (if \<bar>v\<bar> < 10 ^ int_max_str_digits then Inr (before @ decimal v @ after) else Inl ValueError)"
  by (simp add: fstring_def py_str_int_eq)

lemma fstring_error: "\<forall>e. fstring before v after = Inl e \<longrightarrow> e = ValueError"
  by (simp add: fstring_eq)

lemma fstring_returns: "(\<exists>s. fstring before v after = Inr s) \<longleftrightarrow> \<bar>v\<bar> < 10 ^ int_max_str_digits"
  by (simp add: fstring_eq)

lemma snowflake_fallback:
  "py_upper unit \<notin> {''Y'', ''M'', ''W'', ''D''} \<Longrightarrow>
     snowflake_lookback_start v unit =
       fstring (''DATEADD('' @ [CHR 0x27] @ ''DAY'' @ [CHR 0x27] @ '', -'') v '', CURRENT_DATE())''"
  by (simp add: snowflake_lookback_start_def unit_map_def Let_def)

lemma snowflake_returns:
  "(\<exists>s. snowflake_lookback_start v unit = Inr s) \<longleftrightarrow> \<bar>v\<bar> < 10 ^ int_max_str_digits"
  unfolding snowflake_lookback_start_def Let_def by (rule fstring_returns)

lemma oracle_fallback:
  "py_upper unit \<notin> {''Y'', ''M'', ''W'', ''D''} \<Longrightarrow>
     oracle_lookback_start v unit = fstring ''SYSDATE - '' v []"
  by (simp add: oracle_lookback_start_def Let_def)

lemma oracle_returns:
  "(\<exists>s. oracle_lookback_start v unit = Inr s) \<longleftrightarrow>
     \<bar>if py_upper unit = ''Y'' then 12 * v else if py_upper unit = ''W'' then 7 * v else v\<bar>
       < 10 ^ int_max_str_digits"
  by (simp add: oracle_lookback_start_def Let_def fstring_returns mult.commute)

lemma sub_days_eq:
  "(case sub_days today n of Inl e \<Rightarrow> Inl e | Inr d \<Rightarrow> Inr (isoformat d)) =
     (if \<bar>n\<bar> \<le> 999999999 \<and> 0 < toordinal today - n \<and> toordinal today - n \<le> 3652059
      then Inr (isoformat (fromordinal (toordinal today - n)))
      else Inl OverflowError)"
  by (simp add: sub_days_def Let_def)

lemma rest_fallback:
  "py_upper unit \<notin> {''Y'', ''M'', ''W'', ''D''} \<Longrightarrow>
     rest_lookback_start rdelta today v unit =
       (if \<bar>v\<bar> \<le> 999999999 \<and> 0 < toordinal today - v \<and> toordinal today - v \<le> 3652059
        then Inr (isoformat (fromordinal (toordinal today - v)))
        else Inl OverflowError)"
  by (simp add: rest_lookback_start_def Let_def sub_days_eq)

lemma rest_returns:
  "(\<exists>s. rest_lookback_start rdelta today v unit = Inr s) \<longleftrightarrow>
     (if py_upper unit = ''Y'' then (\<exists>d. rdelta today v 0 = Inr d)
      else if py_upper unit = ''M'' then (\<exists>d. rdelta today 0 v = Inr d)
      else if py_upper unit = ''W''
        then \<bar>7 * v\<bar> \<le> 999999999 \<and> 0 < toordinal today - 7 * v \<and> toordinal today - 7 * v \<le> 3652059
      else \<bar>v\<bar> \<le> 999999999 \<and> 0 < toordinal today - v \<and> toordinal today - v \<le> 3652059)"
proof -
  have r: "(\<exists>s. (case x of Inl e \<Rightarrow> Inl e | Inr d \<Rightarrow> Inr (isoformat d)) = (Inr s :: dialect_error + string))
      \<longleftrightarrow> (\<exists>d. x = Inr d)" for x :: "dialect_error + date"
    by (cases x) simp_all
  have d: "(\<exists>d. sub_days today n = Inr d) \<longleftrightarrow>
      \<bar>n\<bar> \<le> 999999999 \<and> 0 < toordinal today - n \<and> toordinal today - n \<le> 3652059" for n
    by (simp add: sub_days_def Let_def)
  show ?thesis
    unfolding rest_lookback_start_def Let_def r
    by (simp add: d)
qed

lemma rest_error:
  "py_upper unit \<noteq> ''Y'' \<and> py_upper unit \<noteq> ''M'' \<longrightarrow>
     (\<forall>e. rest_lookback_start rdelta today v unit = Inl e \<longrightarrow> e = OverflowError)"
  by (simp add: rest_lookback_start_def Let_def sub_days_eq)

subsection \<open>The check of a segment and the segment grammar\<close>

lemma segment_grammar_last:
  assumes "segment_grammar g"
  shows "g \<noteq> [] \<and> is_seg_char (last g)"
proof -
  from assms obtain c cs where g: "g = c # cs" and c: "is_alnum c" and cs: "list_all is_seg_char cs"
    by (cases g) (auto simp add: segment_grammar_def)
  show ?thesis
  proof (cases "cs = []")
    case True
    with g c show ?thesis by (simp add: alnum_seg_char)
  next
    case False
    then have "last cs \<in> set cs" by simp
    with cs have "is_seg_char (last cs)" by (simp add: list_all_iff)
    with g False show ?thesis by simp
  qed
qed

lemma segment_grammar_valid:
  assumes "segment_grammar g"
  shows "validate_segment g" and "\<not> ends_in_newline g"
proof -
  from segment_grammar_last [OF assms] have ne: "g \<noteq> []" and l: "is_seg_char (last g)" by simp_all
  from l nl_not_seg_char have nn: "last g \<noteq> chr_nl" by auto
  then show "\<not> ends_in_newline g" by (simp add: ends_in_newline_def)
  from ne nn have ch: "chomp_nl g = g" by (simp add: chomp_nl_def)
  from ne obtain c cs where g: "g = c # cs" by (cases g) auto
  from assms g have "is_alnum c \<and> list_all is_seg_char cs" and "length g \<le> 128"
    by (simp_all add: segment_grammar_def)
  with ne g show "validate_segment g"
    unfolding validate_segment_def SEGMENT_PATTERN_def ch by simp
qed

lemma validate_segment_grammar:
  assumes "validate_segment g" and "\<not> ends_in_newline g"
  shows "segment_grammar g"
proof -
  from assms(1) have ne: "g \<noteq> []" and le: "length g \<le> 128" and sp: "SEGMENT_PATTERN g"
    by (auto simp add: validate_segment_def split: if_splits)
  from assms(2) ne have ch: "chomp_nl g = g" by (simp add: ends_in_newline_def chomp_nl_def)
  from ne obtain c cs where g: "g = c # cs" by (cases g) auto
  from sp have "is_alnum c \<and> list_all is_seg_char cs"
    unfolding SEGMENT_PATTERN_def ch by (simp add: g)
  with le g show ?thesis by (simp add: segment_grammar_def)
qed

section \<open>Ownership merge\<close>

text \<open>
  Claim C6. A field is set when it holds a non-empty string. For every child \<open>self\<close> and
  parent \<open>parent\<close>, each of the six fields of \<open>merge_with_parent self parent\<close> is the
  child's value when the child has the field set and the parent's value otherwise; so a
  field set on the child is never overridden, and the merged field is determined by that
  field of the child and of the parent alone, whatever the other five fields hold.
\<close>

theorem merge_with_parent_per_field:
  "accountable_owner (merge_with_parent self parent) =
     (if truthy (accountable_owner self) then accountable_owner self else accountable_owner parent)
   \<and> data_specialist (merge_with_parent self parent) =
     (if truthy (data_specialist self) then data_specialist self else data_specialist parent)
   \<and> support_channel (merge_with_parent self parent) =
     (if truthy (support_channel self) then support_channel self else support_channel parent)
   \<and> adop (merge_with_parent self parent) = (if truthy (adop self) then adop self else adop parent)
   \<and> ads (merge_with_parent self parent) = (if truthy (ads self) then ads self else ads parent)
   \<and> adal (merge_with_parent self parent) = (if truthy (adal self) then adal self else adal parent)
   \<and> (accountable_owner self' = accountable_owner self \<and> accountable_owner parent' = accountable_owner parent
        \<longrightarrow> accountable_owner (merge_with_parent self' parent') = accountable_owner (merge_with_parent self parent))
   \<and> (data_specialist self' = data_specialist self \<and> data_specialist parent' = data_specialist parent
        \<longrightarrow> data_specialist (merge_with_parent self' parent') = data_specialist (merge_with_parent self parent))
   \<and> (support_channel self' = support_channel self \<and> support_channel parent' = support_channel parent
        \<longrightarrow> support_channel (merge_with_parent self' parent') = support_channel (merge_with_parent self parent))
   \<and> (adop self' = adop self \<and> adop parent' = adop parent
        \<longrightarrow> adop (merge_with_parent self' parent') = adop (merge_with_parent self parent))
   \<and> (ads self' = ads self \<and> ads parent' = ads parent
        \<longrightarrow> ads (merge_with_parent self' parent') = ads (merge_with_parent self parent))
   \<and> (adal self' = adal self \<and> adal parent' = adal parent
        \<longrightarrow> adal (merge_with_parent self' parent') = adal (merge_with_parent self parent))"
  by (simp add: merge_with_parent_def py_or_def)

theorem merge_with_parent_per_field_witness:
  "accountable_owner (merge_with_parent
      \<lparr> accountable_owner = None, data_specialist = Some ''B'', support_channel = Some [],
        adop = None, ads = None, adal = None \<rparr>
      \<lparr> accountable_owner = Some ''A'', data_specialist = Some ''C'', support_channel = Some ''#help'',
        adop = None, ads = None, adal = None \<rparr>) = Some ''A''
   \<and> data_specialist (merge_with_parent
      \<lparr> accountable_owner = None, data_specialist = Some ''B'', support_channel = Some [],
        adop = None, ads = None, adal = None \<rparr>
      \<lparr> accountable_owner = Some ''A'', data_specialist = Some ''C'', support_channel = Some ''#help'',
        adop = None, ads = None, adal = None \<rparr>) = Some ''B''
   \<and> support_channel (merge_with_parent
      \<lparr> accountable_owner = None, data_specialist = Some ''B'', support_channel = Some [],
        adop = None, ads = None, adal = None \<rparr>
      \<lparr> accountable_owner = Some ''A'', data_specialist = Some ''C'', support_channel = Some ''#help'',
        adop = None, ads = None, adal = None \<rparr>) = Some ''#help''"
  using merge_with_parent_per_field
    [of "\<lparr> accountable_owner = None, data_specialist = Some ''B'', support_channel = Some [],
           adop = None, ads = None, adal = None \<rparr>"
        "\<lparr> accountable_owner = Some ''A'', data_specialist = Some ''C'', support_channel = Some ''#help'',
           adop = None, ads = None, adal = None \<rparr>"]
  by simp

section \<open>Oracle lookback\<close>

text \<open>
  Claim C7, as stated, fails: the number is put into the result by an f-string, and
  Python refuses to convert an integer of more than 4300 decimal digits to a string. For
  the value \<open>10 ^ 4300\<close>, which has 4301 digits, and the unit D, OracleDialect.lookback_start
  raises ValueError.
\<close>

theorem oracle_lookback_start_raises:
  "int_max_str_digits = 4300 \<and> py_upper ''D'' = ''D''
   \<and> oracle_lookback_start (10 ^ int_max_str_digits) ''D'' = Inl ValueError"
proof -
  have u: "py_upper ''D'' = ''D''" by (simp add: py_upper_def upper_char_def)
  have "py_str_int (10 ^ int_max_str_digits) = None" by (simp add: py_str_int_eq)
  with u have "oracle_lookback_start (10 ^ int_max_str_digits) ''D'' = Inl ValueError"
    by (simp add: oracle_lookback_start_def fstring_def)
  moreover have "int_max_str_digits = 4300" by (simp add: int_max_str_digits_def)
  ultimately show ?thesis using u by (simp only: simp_thms)
qed

text \<open>
  Claim C7, amended. For every integer value and every unit whose upper case is Y, M, W
  or D, let the rendered number be 12 times the value for Y, the value for M and D, and
  7 times the value for W. When the rendered number has at most 4300 decimal digits,
  OracleDialect.lookback_start returns \<open>ADD_MONTHS(SYSDATE, -{12*value})\<close> for Y,
  \<open>ADD_MONTHS(SYSDATE, -{value})\<close> for M, \<open>SYSDATE - {7*value}\<close> for W and
  \<open>SYSDATE - {value}\<close> for D; when it has more, the function raises ValueError.
\<close>

theorem oracle_lookback_start_mapping:
  "(py_upper unit = ''Y'' \<longrightarrow>
      oracle_lookback_start v unit =
        (if \<bar>12 * v\<bar> < 10 ^ int_max_str_digits
         then Inr (''ADD_MONTHS(SYSDATE, -'' @ decimal (12 * v) @ '')'') else Inl ValueError))
   \<and> (py_upper unit = ''M'' \<longrightarrow>
      oracle_lookback_start v unit =
        (if \<bar>v\<bar> < 10 ^ int_max_str_digits
         then Inr (''ADD_MONTHS(SYSDATE, -'' @ decimal v @ '')'') else Inl ValueError))
   \<and> (py_upper unit = ''W'' \<longrightarrow>
      oracle_lookback_start v unit =
        (if \<bar>7 * v\<bar> < 10 ^ int_max_str_digits
         then Inr (''SYSDATE - '' @ decimal (7 * v)) else Inl ValueError))
   \<and> (py_upper unit = ''D'' \<longrightarrow>
      oracle_lookback_start v unit =
        (if \<bar>v\<bar> < 10 ^ int_max_str_digits
         then Inr (''SYSDATE - '' @ decimal v) else Inl ValueError))"
  by (simp add: oracle_lookback_start_def fstring_eq Let_def mult.commute)

theorem oracle_lookback_start_mapping_witness:
  "py_upper ''Y'' = ''Y'' \<and> oracle_lookback_start 1 ''Y'' = Inr ''ADD_MONTHS(SYSDATE, -12)''"
proof -
  have u: "py_upper ''Y'' = ''Y''"
    by (simp add: py_upper_def upper_char_def)
  have d: "decimal (12 * 1) = ''12''"
    by (simp add: decimal_def nat_digits.simps digit_char_def)
  have l: "\<bar>12 * 1\<bar> < (10::int) ^ int_max_str_digits"
    by (rule small_in_limit) simp
  from oracle_lookback_start_mapping [of "''Y''" 1] u
  have "oracle_lookback_start 1 ''Y'' =
        (if \<bar>12 * 1\<bar> < (10::int) ^ int_max_str_digits
         then Inr (''ADD_MONTHS(SYSDATE, -'' @ decimal (12 * 1) @ '')'') else Inl ValueError)"
    by blast
  with l have "oracle_lookback_start 1 ''Y'' = Inr (''ADD_MONTHS(SYSDATE, -'' @ decimal (12 * 1) @ '')'')"
    by (simp only: if_True)
  with u d show ?thesis by simp
qed

section \<open>Lenient unit fallback of the dialects\<close>

text \<open>
  Claim C8, as stated, fails for the REST dialect: with a unit that is none of Y, M, W, D
  and the magnitude 1000000000, \<open>timedelta(days=...)\<close> raises OverflowError.
\<close>

theorem rest_lookback_start_raises:
  "py_upper ''q'' \<notin> {''Y'', ''M'', ''W'', ''D''}
   \<and> rest_lookback_start relativedelta_sub \<lparr> year = 2026, month = 11, day = 3 \<rparr> 1000000000 ''q'' = Inl OverflowError"
  by (simp add: py_upper_def upper_char_def rest_lookback_start_def sub_days_def)

text \<open>
  Claim C8, amended. A unit whose upper case is none of Y, M, W, D is treated as days by
  every dialect, within the bounds of the Python operations used. Snowflake emits the
  DAY-unit DATEADD and Oracle emits SYSDATE minus the value when the magnitude has at
  most 4300 decimal digits, and both raise ValueError otherwise. REST returns the ISO
  date of today minus that many days when the magnitude is at most 999999999 and the
  resulting day lies between 0001-01-01 and 9999-12-31, and raises OverflowError
  otherwise.

  For every unit, recognised or not, these bounds are the only way to raise. Snowflake
  returns exactly when the magnitude has at most 4300 digits; Oracle returns exactly when
  the number it renders (12 times the value for Y, 7 times the value for W, the value
  otherwise) has at most 4300 digits; both raise nothing but ValueError. REST returns
  for Y and M exactly when the relativedelta subtraction returns a date, and for W and
  the days exactly when 7 times the value, respectively the value, is at most 999999999
  in magnitude and leads to a day between 0001-01-01 and 9999-12-31, raising nothing but
  OverflowError for W and the days.
\<close>

theorem lookback_start_unit_fallback:
  "(py_upper unit \<notin> {''Y'', ''M'', ''W'', ''D''} \<longrightarrow>
      snowflake_lookback_start v unit =
        (if \<bar>v\<bar> < 10 ^ int_max_str_digits
         then Inr (''DATEADD('' @ [CHR 0x27] @ ''DAY'' @ [CHR 0x27] @ '', -'' @ decimal v @ '', CURRENT_DATE())'')
         else Inl ValueError)
      \<and> oracle_lookback_start v unit =
        (if \<bar>v\<bar> < 10 ^ int_max_str_digits then Inr (''SYSDATE - '' @ decimal v) else Inl ValueError)
      \<and> rest_lookback_start rdelta today v unit =
        (if \<bar>v\<bar> \<le> 999999999 \<and> 0 < toordinal today - v \<and> toordinal today - v \<le> 3652059
         then Inr (isoformat (fromordinal (toordinal today - v)))
         else Inl OverflowError))
   \<and> ((\<exists>s. snowflake_lookback_start v unit = Inr s) \<longleftrightarrow> \<bar>v\<bar> < 10 ^ int_max_str_digits)
   \<and> ((\<exists>s. oracle_lookback_start v unit = Inr s) \<longleftrightarrow>
        \<bar>if py_upper unit = ''Y'' then 12 * v else if py_upper unit = ''W'' then 7 * v else v\<bar>
          < 10 ^ int_max_str_digits)
   \<and> ((\<exists>s. rest_lookback_start rdelta today v unit = Inr s) \<longleftrightarrow>
        (if py_upper unit = ''Y'' then (\<exists>d. rdelta today v 0 = Inr d)
         else if py_upper unit = ''M'' then (\<exists>d. rdelta today 0 v = Inr d)
         else if py_upper unit = ''W''
           then \<bar>7 * v\<bar> \<le> 999999999 \<and> 0 < toordinal today - 7 * v \<and> toordinal today - 7 * v \<le> 3652059
         else \<bar>v\<bar> \<le> 999999999 \<and> 0 < toordinal today - v \<and> toordinal today - v \<le> 3652059))
   \<and> (\<forall>e. snowflake_lookback_start v unit = Inl e \<longrightarrow> e = ValueError)
   \<and> (\<forall>e. oracle_lookback_start v unit = Inl e \<longrightarrow> e = ValueError)
   \<and> (py_upper unit \<noteq> ''Y'' \<and> py_upper unit \<noteq> ''M'' \<longrightarrow>
        (\<forall>e. rest_lookback_start rdelta today v unit = Inl e \<longrightarrow> e = OverflowError))"
proof (intro conjI)
  show "py_upper unit \<notin> {''Y'', ''M'', ''W'', ''D''} \<longrightarrow>
      snowflake_lookback_start v unit =
        (if \<bar>v\<bar> < 10 ^ int_max_str_digits
         then Inr (''DATEADD('' @ [CHR 0x27] @ ''DAY'' @ [CHR 0x27] @ '', -'' @ decimal v @ '', CURRENT_DATE())'')
         else Inl ValueError)
      \<and> oracle_lookback_start v unit =
        (if \<bar>v\<bar> < 10 ^ int_max_str_digits then Inr (''SYSDATE - '' @ decimal v) else Inl ValueError)
      \<and> rest_lookback_start rdelta today v unit =
        (if \<bar>v\<bar> \<le> 999999999 \<and> 0 < toordinal today - v \<and> toordinal today - v \<le> 3652059
         then Inr (isoformat (fromordinal (toordinal today - v)))
         else Inl OverflowError)"
    by (simp add: snowflake_fallback oracle_fallback rest_fallback fstring_eq)
  show "(\<exists>s. snowflake_lookback_start v unit = Inr s) \<longleftrightarrow> \<bar>v\<bar> < 10 ^ int_max_str_digits"
    by (rule snowflake_returns)
  show "(\<exists>s. oracle_lookback_start v unit = Inr s) \<longleftrightarrow>
        \<bar>if py_upper unit = ''Y'' then 12 * v else if py_upper unit = ''W'' then 7 * v else v\<bar>
          < 10 ^ int_max_str_digits"
    by (rule oracle_returns)
  show "(\<exists>s. rest_lookback_start rdelta today v unit = Inr s) \<longleftrightarrow>
        (if py_upper unit = ''Y'' then (\<exists>d. rdelta today v 0 = Inr d)
         else if py_upper unit = ''M'' then (\<exists>d. rdelta today 0 v = Inr d)
         else if py_upper unit = ''W''
           then \<bar>7 * v\<bar> \<le> 999999999 \<and> 0 < toordinal today - 7 * v \<and> toordinal today - 7 * v \<le> 3652059
         else \<bar>v\<bar> \<le> 999999999 \<and> 0 < toordinal today - v \<and> toordinal today - v \<le> 3652059)"
    by (rule rest_returns)
  show "\<forall>e. snowflake_lookback_start v unit = Inl e \<longrightarrow> e = ValueError"
    by (simp add: snowflake_lookback_start_def Let_def fstring_error)
  show "\<forall>e. oracle_lookback_start v unit = Inl e \<longrightarrow> e = ValueError"
    by (simp add: oracle_lookback_start_def Let_def fstring_error)
  show "py_upper unit \<noteq> ''Y'' \<and> py_upper unit \<noteq> ''M'' \<longrightarrow>
        (\<forall>e. rest_lookback_start rdelta today v unit = Inl e \<longrightarrow> e = OverflowError)"
    by (rule rest_error)
qed

theorem lookback_start_unit_fallback_witness:
  "py_upper ''q'' \<notin> {''Y'', ''M'', ''W'', ''D''}
   \<and> snowflake_lookback_start 3 ''q'' = Inr (''DATEADD('' @ [CHR 0x27] @ ''DAY'' @ [CHR 0x27] @ '', -3, CURRENT_DATE())'')
   \<and> oracle_lookback_start 3 ''q'' = Inr ''SYSDATE - 3''
   \<and> rest_lookback_start relativedelta_sub \<lparr> year = 2026, month = 11, day = 3 \<rparr> 3 ''q'' = Inr ''2026-10-31''
   \<and> (\<exists>s. oracle_lookback_start 2 ''w'' = Inr s)
   \<and> (\<exists>s. rest_lookback_start relativedelta_sub \<lparr> year = 2026, month = 11, day = 3 \<rparr> 1 ''y'' = Inr s)"
proof -
  have u: "py_upper ''q'' \<notin> {''Y'', ''M'', ''W'', ''D''}"
    by (simp add: py_upper_def upper_char_def)
  have d: "decimal 3 = ''3''"
    by (simp add: decimal_def nat_digits.simps digit_char_def)
  have l: "\<bar>3\<bar> < (10::int) ^ int_max_str_digits"
    by (rule small_in_limit) simp
  have t: "toordinal \<lparr> year = 2026, month = 11, day = 3 \<rparr> = 739923"
    by (simp add: toordinal_def days_before_year_def days_before_month_def DAYS_BEFORE_MONTH_def is_leap_def)
  have f: "isoformat (fromordinal 739920) = ''2026-10-31''"
    by code_simp
  have w: "py_upper ''w'' = ''W''" and y: "py_upper ''y'' = ''Y''"
    by (simp_all add: py_upper_def upper_char_def)
  have lw: "\<bar>7 * 2\<bar> < (10::int) ^ int_max_str_digits"
    by (rule small_in_limit) simp
  have ry: "relativedelta_sub \<lparr> year = 2026, month = 11, day = 3 \<rparr> 1 0
      = Inr \<lparr> year = 2025, month = 11, day = 3 \<rparr>"
    by (simp add: relativedelta_sub_def days_in_month_def DAYS_IN_MONTH_def)
  note q = lookback_start_unit_fallback [of "''q''" 3 relativedelta_sub "\<lparr> year = 2026, month = 11, day = 3 \<rparr>"]
  from q u l have "snowflake_lookback_start 3 ''q''
      = Inr (''DATEADD('' @ [CHR 0x27] @ ''DAY'' @ [CHR 0x27] @ '', -'' @ decimal 3 @ '', CURRENT_DATE())'')"
    by (simp only: if_True simp_thms)
  moreover from q u l have "oracle_lookback_start 3 ''q'' = Inr (''SYSDATE - '' @ decimal 3)"
    by (simp only: if_True simp_thms)
  moreover from q u t f
  have "rest_lookback_start relativedelta_sub \<lparr> year = 2026, month = 11, day = 3 \<rparr> 3 ''q'' = Inr ''2026-10-31''"
    by simp
  moreover from lookback_start_unit_fallback [of "''w''" 2 relativedelta_sub "\<lparr> year = 2026, month = 11, day = 3 \<rparr>"] w lw
  have "\<exists>s. oracle_lookback_start 2 ''w'' = Inr s"
    by simp
  moreover from lookback_start_unit_fallback [of "''y''" 1 relativedelta_sub "\<lparr> year = 2026, month = 11, day = 3 \<rparr>"] y ry
  have "\<exists>s. rest_lookback_start relativedelta_sub \<lparr> year = 2026, month = 11, day = 3 \<rparr> 1 ''y'' = Inr s"
    by simp
  ultimately show ?thesis using u d by simp
qed

section \<open>What build_moniker validates\<close>

text \<open>
  Claim C5, as stated, fails: build_moniker returns a Moniker that holds a namespace and
  a version violating their grammars.
\<close>

theorem build_moniker_unvalidated:
  "build_moniker ''a'' (Some ''1bad'') (Some ''not valid!'') None []
     = Inr \<lparr> path = [''a''], namespace = Some ''1bad'', version = Some ''not valid!'',
             revision = None, params = [] \<rparr>
   \<and> \<not> validate_namespace ''1bad'' \<and> \<not> VERSION_PATTERN ''not valid!''"
  by (simp add: build_moniker_def parse_path_def strip_char_def grammar_defs char_class_defs)

text \<open>
  Claim C5, amended. build_moniker validates the path only. When it returns a Moniker,
  the path holds the segments of the stripped path string, every one of them that does
  not end in a newline satisfies the segment grammar, and namespace, version, revision
  and parameters are stored as they were given. When it raises, the error is the
  ParseError naming a segment of the path that violates the segment grammar; and it does
  raise whenever a segment that does not end in a newline violates the grammar.
\<close>

theorem build_moniker_validates_path_only:
  "(build_moniker p ns ver rv kwargs = Inr m \<longrightarrow>
      path m = (if strip_char (CHR ''/'') p = [] then [] else split_on (CHR ''/'') (strip_char (CHR ''/'') p))
      \<and> list_all (\<lambda>g. \<not> ends_in_newline g \<longrightarrow> segment_grammar g) (path m)
      \<and> namespace m = ns \<and> version m = ver \<and> revision m = rv \<and> params m = kwargs)
   \<and> (build_moniker p ns ver rv kwargs = Inl e \<longrightarrow>
      is_parse_error e
      \<and> (\<exists>seg. e = InvalidSegment seg \<and> \<not> segment_grammar seg
            \<and> seg \<in> set (split_on (CHR ''/'') (strip_char (CHR ''/'') p))))
   \<and> (strip_char (CHR ''/'') p \<noteq> []
        \<and> (\<exists>g\<in>set (split_on (CHR ''/'') (strip_char (CHR ''/'') p)). \<not> ends_in_newline g \<and> \<not> segment_grammar g)
      \<longrightarrow> (\<exists>seg. build_moniker p ns ver rv kwargs = Inl (InvalidSegment seg)))"
proof (cases "parse_path True p")
  case (Inl e')
  from parse_path_Inl [OF Inl] obtain seg where
    "e' = InvalidSegment seg" "\<not> validate_segment seg"
    "seg \<in> set (split_on (CHR ''/'') (strip_char (CHR ''/'') p))" by blast
  moreover from this(2) have "\<not> segment_grammar seg" using segment_grammar_valid by blast
  ultimately show ?thesis using Inl by (auto simp add: build_moniker_def)
next
  case (Inr segs)
  from parse_path_Inr [OF Inr]
  have p: "segs = (if strip_char (CHR ''/'') p = [] then [] else split_on (CHR ''/'') (strip_char (CHR ''/'') p))"
    and v: "list_all validate_segment segs" by simp_all
  from v have g: "list_all (\<lambda>g. \<not> ends_in_newline g \<longrightarrow> segment_grammar g) segs"
    unfolding list_all_iff using validate_segment_grammar by blast
  have n: "\<not> (strip_char (CHR ''/'') p \<noteq> []
        \<and> (\<exists>g\<in>set (split_on (CHR ''/'') (strip_char (CHR ''/'') p)). \<not> ends_in_newline g \<and> \<not> segment_grammar g))"
  proof
    assume a: "strip_char (CHR ''/'') p \<noteq> []
        \<and> (\<exists>g\<in>set (split_on (CHR ''/'') (strip_char (CHR ''/'') p)). \<not> ends_in_newline g \<and> \<not> segment_grammar g)"
    with p have "segs = split_on (CHR ''/'') (strip_char (CHR ''/'') p)" by simp
    with a g show False unfolding list_all_iff by blast
  qed
  from Inr have b: "build_moniker p ns ver rv kwargs
      = Inr \<lparr> path = segs, namespace = ns, version = ver, revision = rv, params = kwargs \<rparr>"
    by (simp add: build_moniker_def)
  have "path m = (if strip_char (CHR ''/'') p = [] then [] else split_on (CHR ''/'') (strip_char (CHR ''/'') p))
      \<and> list_all (\<lambda>g. \<not> ends_in_newline g \<longrightarrow> segment_grammar g) (path m)
      \<and> namespace m = ns \<and> version m = ver \<and> revision m = rv \<and> params m = kwargs"
    if "build_moniker p ns ver rv kwargs = Inr m"
  proof -
    from that b have m: "m = \<lparr> path = segs, namespace = ns, version = ver, revision = rv, params = kwargs \<rparr>"
      by simp
    have "path m = segs" "namespace m = ns" "version m = ver" "revision m = rv" "params m = kwargs"
      unfolding m by simp_all
    with p g show ?thesis by (simp only: simp_thms)
  qed
  moreover from b have "build_moniker p ns ver rv kwargs \<noteq> Inl e" by simp
  ultimately show ?thesis using n by blast
qed

theorem build_moniker_validates_path_only_witness:
  "build_moniker ''a/b'' (Some ''1bad'') None (Some 2) []
     = Inr \<lparr> path = [''a'', ''b''], namespace = Some ''1bad'', version = None, revision = Some 2, params = [] \<rparr>
   \<and> segment_grammar ''a'' \<and> segment_grammar ''b''
   \<and> build_moniker ''a b'' None None None [] = Inl (InvalidSegment ''a b'')
   \<and> \<not> segment_grammar ''a b''"
proof -
  have b1: "build_moniker ''a/b'' (Some ''1bad'') None (Some 2) []
     = Inr \<lparr> path = [''a'', ''b''], namespace = Some ''1bad'', version = None, revision = Some 2, params = [] \<rparr>"
    by (simp add: build_moniker_def parse_path_def strip_char_def grammar_defs char_class_defs)
  have b2: "build_moniker ''a b'' None None None [] = Inl (InvalidSegment ''a b'')"
    by (simp add: build_moniker_def parse_path_def strip_char_def grammar_defs char_class_defs)
  have n: "\<not> ends_in_newline ''a''" "\<not> ends_in_newline ''b''"
    by (simp_all add: ends_in_newline_def chr_nl_def)
  from build_moniker_validates_path_only
    [of "''a/b''" "Some ''1bad''" None "Some 2" "[]"
        "\<lparr> path = [''a'', ''b''], namespace = Some ''1bad'', version = None, revision = Some 2, params = [] \<rparr>"] b1
  have "list_all (\<lambda>g. \<not> ends_in_newline g \<longrightarrow> segment_grammar g)
      (path \<lparr> path = [''a'', ''b''], namespace = Some ''1bad'', version = None,
      revision = Some 2, params = [] \<rparr>)" by blast
  with n have "segment_grammar ''a'' \<and> segment_grammar ''b''" by simp
  moreover from build_moniker_validates_path_only
    [of "''a b''" None None None "[]" "\<lparr> path = [], namespace = None, version = None, revision = None, params = [] \<rparr>"
        "InvalidSegment ''a b''"] b2
  have "\<not> segment_grammar ''a b''" by blast
  ultimately show ?thesis using b1 b2 by simp
qed

section \<open>Inputs with an empty body\<close>

text \<open>
  Claim C10. parse_moniker raises its empty-input error exactly for the empty string.
  Every non-empty input for which the scheme step yields an empty body (a string of
  white space, a bare query, or \<open>moniker://\<close> alone) is accepted with validation on, and
  the result is the root path with no namespace, version or revision, carrying the
  parameters of the query string.
\<close>

theorem parse_moniker_empty_body:
  "(parse_moniker L validate s = Inl EmptyMoniker \<longleftrightarrow> s = [])
   \<and> (s \<noteq> [] \<and> split_scheme L (py_strip s) = Inr ([], q) \<longrightarrow>
        parse_moniker L True s
          = Inr \<lparr> path = [], namespace = None, version = None, revision = None,
                  params = parse_params L q \<rparr>)"
proof (intro conjI impI)
  show "parse_moniker L validate s = Inl EmptyMoniker \<longleftrightarrow> s = []"
  proof
    assume "parse_moniker L validate s = Inl EmptyMoniker"
    from parse_moniker_error [OF this] show "s = []" by simp
  next
    assume "s = []"
    then show "parse_moniker L validate s = Inl EmptyMoniker" by (simp add: parse_moniker_def)
  qed
next
  assume a: "s \<noteq> [] \<and> split_scheme L (py_strip s) = Inr ([], q)"
  then have "parse_moniker L True s =
      (case split_namespace True [] of Inl e \<Rightarrow> Inl e
       | Inr (ns, remaining) \<Rightarrow> parse_suffixes L True ns remaining q)"
    using parse_moniker_nonempty [of s L "[]" q True] by simp
  then show "parse_moniker L True s
          = Inr \<lparr> path = [], namespace = None, version = None, revision = None,
                  params = parse_params L q \<rparr>"
    by (simp add: split_namespace_eq parse_suffixes_empty)
qed

theorem parse_moniker_empty_body_witness:
  "parse_moniker urllib_plain True [] = Inl EmptyMoniker
   \<and> parse_moniker urllib_plain True ''  ''
       = Inr \<lparr> path = [], namespace = None, version = None, revision = None, params = [] \<rparr>
   \<and> parse_moniker urllib_plain True ''?a=1''
       = Inr \<lparr> path = [], namespace = None, version = None, revision = None, params = [(''a'', ''1'')] \<rparr>
   \<and> parse_moniker urllib_plain True ''moniker://''
       = Inr \<lparr> path = [], namespace = None, version = None, revision = None, params = [] \<rparr>"
proof -
  have s1: "split_scheme urllib_plain (py_strip ''  '') = Inr ([], [])"
    by (simp add: split_scheme_def string_op_defs)
  have s2: "split_scheme urllib_plain (py_strip ''?a=1'') = Inr ([], ''a=1'')"
    by (simp add: split_scheme_def string_op_defs)
  have s3: "split_scheme urllib_plain (py_strip ''moniker://'') = Inr ([], [])"
    by (simp add: split_scheme_def urlparse_def string_op_defs)
  have q0: "parse_params urllib_plain [] = []"
    by (simp add: query_defs)
  have q2: "parse_params urllib_plain ''a=1'' = [(''a'', ''1'')]"
    by (simp add: query_defs split1_def)
  from parse_moniker_empty_body [of urllib_plain True "[]"]
  have "parse_moniker urllib_plain True [] = Inl EmptyMoniker" by simp
  moreover from parse_moniker_empty_body [of urllib_plain True "''  ''" "[]"] s1 q0
  have "parse_moniker urllib_plain True ''  ''
       = Inr \<lparr> path = [], namespace = None, version = None, revision = None, params = [] \<rparr>" by simp
  moreover from parse_moniker_empty_body [of urllib_plain True "''?a=1''" "''a=1''"] s2 q2
  have "parse_moniker urllib_plain True ''?a=1''
       = Inr \<lparr> path = [], namespace = None, version = None, revision = None, params = [(''a'', ''1'')] \<rparr>" by simp
  moreover from parse_moniker_empty_body [of urllib_plain True "''moniker://''" "[]"] s3 q0
  have "parse_moniker urllib_plain True ''moniker://''
       = Inr \<lparr> path = [], namespace = None, version = None, revision = None, params = [] \<rparr>" by simp
  ultimately show ?thesis by simp
qed

section \<open>Namespace disambiguation\<close>

text \<open>
  Claim C2. Let the scheme step give the body. When the body contains an at sign and the
  text before its first at sign contains no slash (the first at sign comes strictly
  before the first slash, or there is no slash), the namespace is exactly the text before
  that at sign, it is checked against the namespace grammar when validating, and parsing
  continues on the text after that at sign. Otherwise no namespace is assigned and
  parsing continues on the whole body.
\<close>

theorem namespace_disambiguation:
  assumes "s \<noteq> []" and "split_scheme L (py_strip s) = Inr (body, q)"
  shows "(CHR ''@'' \<in> set body \<and> CHR ''/'' \<notin> set (takeWhile (\<lambda>x. x \<noteq> CHR ''@'') body) \<longrightarrow>
            parse_moniker L validate s =
              (if validate \<and> \<not> validate_namespace (takeWhile (\<lambda>x. x \<noteq> CHR ''@'') body)
               then Inl (InvalidNamespace (takeWhile (\<lambda>x. x \<noteq> CHR ''@'') body))
               else parse_suffixes L validate (Some (takeWhile (\<lambda>x. x \<noteq> CHR ''@'') body))
                      (drop 1 (dropWhile (\<lambda>x. x \<noteq> CHR ''@'') body)) q))
       \<and> (\<not> (CHR ''@'' \<in> set body \<and> CHR ''/'' \<notin> set (takeWhile (\<lambda>x. x \<noteq> CHR ''@'') body)) \<longrightarrow>
            parse_moniker L validate s = parse_suffixes L validate None body q)
       \<and> (parse_moniker L validate s = Inr m \<longrightarrow>
            namespace m =
              (if CHR ''@'' \<in> set body \<and> CHR ''/'' \<notin> set (takeWhile (\<lambda>x. x \<noteq> CHR ''@'') body)
               then Some (takeWhile (\<lambda>x. x \<noteq> CHR ''@'') body) else None))"
proof -
  note pm = parse_moniker_nonempty [OF assms, of validate]
  show ?thesis
  proof (cases "CHR ''@'' \<in> set body \<and> CHR ''/'' \<notin> set (takeWhile (\<lambda>x. x \<noteq> CHR ''@'') body)")
    case True
    then have eq: "parse_moniker L validate s =
              (if validate \<and> \<not> validate_namespace (takeWhile (\<lambda>x. x \<noteq> CHR ''@'') body)
               then Inl (InvalidNamespace (takeWhile (\<lambda>x. x \<noteq> CHR ''@'') body))
               else parse_suffixes L validate (Some (takeWhile (\<lambda>x. x \<noteq> CHR ''@'') body))
                      (drop 1 (dropWhile (\<lambda>x. x \<noteq> CHR ''@'') body)) q)"
      unfolding pm split_namespace_eq by simp
    have "namespace m = Some (takeWhile (\<lambda>x. x \<noteq> CHR ''@'') body)"
      if "parse_moniker L validate s = Inr m"
      using that eq parse_suffixes_namespace by (auto split: if_splits)
    with True eq show ?thesis by simp
  next
    case False
    have eq: "parse_moniker L validate s = parse_suffixes L validate None body q"
      unfolding pm split_namespace_eq by (simp only: False if_False sum.case prod.case)
    have "namespace m = None" if "parse_moniker L validate s = Inr m"
      using that eq parse_suffixes_namespace by auto
    with False eq show ?thesis by (simp only: simp_thms if_False) simp
  qed
qed

theorem namespace_disambiguation_witness:
  "parse_moniker urllib_plain True ''a@b/c''
     = Inr \<lparr> path = [''b'', ''c''], namespace = Some ''a'', version = None, revision = None, params = [] \<rparr>
   \<and> parse_moniker urllib_plain True ''a/b@c''
     = Inr \<lparr> path = [''a'', ''b''], namespace = None, version = Some ''c'', revision = None, params = [] \<rparr>"
proof -
  have s1: "split_scheme urllib_plain (py_strip ''a@b/c'') = Inr (''a@b/c'', [])"
    by (simp add: split_scheme_def string_op_defs)
  have s2: "split_scheme urllib_plain (py_strip ''a/b@c'') = Inr (''a/b@c'', [])"
    by (simp add: split_scheme_def string_op_defs)
  have v: "validate_namespace ''a''"
    by (simp add: grammar_defs char_class_defs)
  have p1: "parse_suffixes urllib_plain True (Some ''a'') ''b/c'' []
     = Inr \<lparr> path = [''b'', ''c''], namespace = Some ''a'', version = None, revision = None, params = [] \<rparr>"
    by (simp add: parser_defs string_op_defs query_defs grammar_defs char_class_defs)
  have p2: "parse_suffixes urllib_plain True None ''a/b@c'' []
     = Inr \<lparr> path = [''a'', ''b''], namespace = None, version = Some ''c'', revision = None, params = [] \<rparr>"
    by (simp add: parser_defs string_op_defs query_defs grammar_defs char_class_defs)
  from namespace_disambiguation [OF _ s1, of True] v p1
  have "parse_moniker urllib_plain True ''a@b/c''
     = Inr \<lparr> path = [''b'', ''c''], namespace = Some ''a'', version = None, revision = None, params = [] \<rparr>"
    by simp
  moreover from namespace_disambiguation [OF _ s2, of True] p2
  have "parse_moniker urllib_plain True ''a/b@c''
     = Inr \<lparr> path = [''a'', ''b''], namespace = None, version = Some ''c'', revision = None, params = [] \<rparr>"
    by simp
  ultimately show ?thesis by simp
qed

section \<open>Revision stripping\<close>

text \<open>
  Claim C3 at the input \<open>a/v2\<close>, newline, \<open>?x=1\<close>. The text after the last \<open>/v\<close> of the body
  is \<open>2\<close> followed by a newline, which is not all digits, yet the parser takes revision 2
  and the path \<open>a\<close>: the pattern of the revision ends in \<open>$\<close>, which also matches before a
  final newline.
\<close>

theorem revision_before_final_newline:
  "parse_moniker L True (''a/v2'' @ [chr_nl] @ ''?x=1'')
     = Inr \<lparr> path = [''a''], namespace = None, version = None, revision = Some 2,
             params = [(''x'', ''1'')] \<rparr>"
proof -
  have sc: "split_scheme L (py_strip (''a/v2'' @ [chr_nl] @ ''?x=1'')) = Inr (''a/v2'' @ [chr_nl], ''x=1'')"
    by (simp add: split_scheme_def string_op_defs chr_nl_def)
  have ns: "split_namespace True (''a/v2'' @ [chr_nl]) = Inr (None, ''a/v2'' @ [chr_nl])"
    by (simp add: split_namespace_eq chr_nl_def)
  have nc: "\<not> contains ''/v'' (''2'' @ [chr_nl])"
    by (simp add: startswith_def chr_nl_def)
  have rm: "rev_match (''2'' @ [chr_nl]) = Some ''2''"
    by (simp add: rev_match_def is_digit_def chr_nl_def)
  have pi: "py_int ''2'' = Some 2"
    by (simp add: py_int_def digits_value_def digit_val_def int_max_str_digits_def)
  have rv: "split_revision (''a/v2'' @ [chr_nl]) = Inr (Some 2, ''a'')"
    using split_revision_at_last [OF nc, of "''a''"] rm pi by simp
  have ve: "split_version True ''a'' = Inr (None, ''a'')"
    by (simp add: split_version_none)
  have pp: "parse_path True ''a'' = Inr [''a'']"
    by (simp add: parse_path_def strip_char_def grammar_defs char_class_defs)
  have qp: "parse_params L ''x=1'' = [(''x'', ''1'')]"
    by (simp add: query_defs split1_def)
  have "parse_suffixes L True None (''a/v2'' @ [chr_nl]) ''x=1''
     = Inr \<lparr> path = [''a''], namespace = None, version = None, revision = Some 2,
             params = [(''x'', ''1'')] \<rparr>"
    unfolding parse_suffixes_def rv by (simp add: ve pp qp)
  then show ?thesis
    using parse_moniker_nonempty [OF _ sc, of True] ns by simp
qed

theorem revision_before_final_newline_witness:
  "parse_moniker urllib_plain True (''a/v2'' @ [chr_nl] @ ''?x=1'')
     = Inr \<lparr> path = [''a''], namespace = None, version = None, revision = Some 2,
             params = [(''x'', ''1'')] \<rparr>
   \<and> \<not> list_all is_digit (''2'' @ [chr_nl])"
  using revision_before_final_newline [of urllib_plain]
  by (simp add: is_digit_def chr_nl_def)

section \<open>Version grammar\<close>

text \<open>
  Claim C4, as stated, fails: in \<open>a/b@\<close> the text after the last at sign is empty, so it is
  not a non-empty run of alphanumeric characters, and parse_moniker with validation
  accepts the input, with the empty string as version.
\<close>

theorem empty_version_accepted:
  "parse_moniker urllib_plain True ''a/b@''
     = Inr \<lparr> path = [''a'', ''b''], namespace = None, version = Some [], revision = None, params = [] \<rparr>"
proof -
  have sc: "split_scheme urllib_plain (py_strip ''a/b@'') = Inr (''a/b@'', [])"
    by (simp add: split_scheme_def string_op_defs)
  have ns: "split_namespace True ''a/b@'' = Inr (None, ''a/b@'')"
    by (simp add: split_namespace_eq)
  have rv: "split_revision ''a/b@'' = Inr (None, ''a/b@'')"
    by (simp add: split_revision_none startswith_def)
  have ve: "split_version True ''a/b@'' = Inr (Some [], ''a/b'')"
    using split_version_at_last [of "[]" True "''a/b''"] by simp
  have pp: "parse_path True ''a/b'' = Inr [''a'', ''b'']"
    by (simp add: parse_path_def strip_char_def grammar_defs char_class_defs)
  have qp: "parse_params urllib_plain [] = []"
    by (simp add: query_defs)
  have "parse_suffixes urllib_plain True None ''a/b@'' []
     = Inr \<lparr> path = [''a'', ''b''], namespace = None, version = Some [], revision = None, params = [] \<rparr>"
    unfolding parse_suffixes_def rv by (simp add: ve pp qp)
  then show ?thesis
    using parse_moniker_nonempty [OF _ sc, of True] ns by simp
qed

text \<open>
  Claim C4, amended. Take the text that remains after the scheme step, the namespace
  split and the revision step, and let \<open>v\<close> be what follows its last at sign, that at sign
  coming after the last slash. When \<open>v\<close> is not empty, does not end in a newline and
  has a character that is not alphanumeric, parse_moniker with validation raises a
  ParseError. When \<open>v\<close> is empty there is no version error: the input is accepted with the
  empty string as its version unless the namespace or a path segment is invalid.
\<close>

theorem version_grammar_rejection:
  assumes "s \<noteq> []"
    and "split_scheme L (py_strip s) = Inr (body, q)"
    and "split_namespace False body = Inr (ns, r1)"
    and "split_revision r1 = Inr (rv, pre @ ''@'' @ v)"
    and "CHR ''@'' \<notin> set v" and "CHR ''/'' \<notin> set v"
  shows "(v \<noteq> [] \<and> last v \<noteq> chr_nl \<and> \<not> list_all is_alnum v \<longrightarrow>
            (\<exists>e. parse_moniker L True s = Inl e \<and> is_parse_error e))
       \<and> (v = [] \<longrightarrow>
            (\<forall>e. parse_moniker L True s = Inl e \<longrightarrow> (\<exists>n. e = InvalidNamespace n) \<or> (\<exists>g. e = InvalidSegment g))
            \<and> (\<forall>m. parse_moniker L True s = Inr m \<longrightarrow> version m = Some []))"
proof -
  note pm = parse_moniker_nonempty [OF assms(1,2), of True]
  note sv = split_version_at_last [OF assms(5), of True pre]
  from split_namespace_validate [OF assms(3)]
  consider (bad) n where "split_namespace True body = Inl (InvalidNamespace n)"
    | (ok) "split_namespace True body = Inr (ns, r1)" by blast
  then show ?thesis
  proof cases
    case bad
    with pm have "parse_moniker L True s = Inl (InvalidNamespace n)" by simp
    then show ?thesis by simp
  next
    case ok
    with pm have ps: "parse_moniker L True s = parse_suffixes L True ns r1 q" by simp
    have bad_v: "\<exists>e. parse_moniker L True s = Inl e \<and> is_parse_error e"
      if "v \<noteq> []" "last v \<noteq> chr_nl" "\<not> list_all is_alnum v"
    proof -
      from that have "\<not> VERSION_PATTERN v" by (simp add: VERSION_PATTERN_plain)
      with that(1) assms(6) sv have "split_version True (pre @ ''@'' @ v) = Inl (InvalidVersion v)" by simp
      with assms(4) have "parse_suffixes L True ns r1 q = Inl (InvalidVersion v)"
        by (simp add: parse_suffixes_def)
      with ps show ?thesis by simp
    qed
    have empty_v: "(\<forall>e. parse_moniker L True s = Inl e \<longrightarrow> (\<exists>n. e = InvalidNamespace n) \<or> (\<exists>g. e = InvalidSegment g))
            \<and> (\<forall>m. parse_moniker L True s = Inr m \<longrightarrow> version m = Some [])"
      if "v = []"
    proof -
      from that assms(6) sv have "split_version True (pre @ ''@'' @ v) = Inr (Some [], pre)" by simp
      with assms(4) have "parse_suffixes L True ns r1 q =
          (case parse_path True pre of Inl e \<Rightarrow> Inl e
           | Inr p \<Rightarrow> Inr \<lparr> path = p, namespace = ns, version = Some [], revision = rv,
                             params = parse_params L q \<rparr>)"
        by (simp add: parse_suffixes_def)
      with ps show ?thesis
        by (cases "parse_path True pre") (auto dest: parse_path_Inl)
    qed
    from bad_v empty_v show ?thesis by blast
  qed
qed

theorem version_grammar_rejection_witness:
  "parse_moniker urllib_plain True ''x@a/b@1.0/v2'' = Inl (InvalidVersion ''1.0'')
   \<and> \<not> list_all is_alnum ''1.0''"
proof -
  have sc: "split_scheme urllib_plain (py_strip ''x@a/b@1.0/v2'') = Inr (''x@a/b@1.0/v2'', [])"
    by (simp add: split_scheme_def string_op_defs)
  have ns: "split_namespace False ''x@a/b@1.0/v2'' = Inr (Some ''x'', ''a/b@1.0/v2'')"
    by (simp add: split_namespace_eq)
  have nc: "\<not> contains ''/v'' ''2''" by (simp add: startswith_def)
  have rm: "rev_match ''2'' = Some ''2''" by (simp add: rev_match_def is_digit_def)
  have pi: "py_int ''2'' = Some 2"
    by (simp add: py_int_def digits_value_def digit_val_def int_max_str_digits_def)
  have rv: "split_revision ''a/b@1.0/v2'' = Inr (Some 2, ''a/b'' @ ''@'' @ ''1.0'')"
    using split_revision_at_last [OF nc, of "''a/b@1.0''"] rm pi by simp
  have na: "\<not> list_all is_alnum ''1.0''" by (simp add: char_class_defs)
  have e: "parse_moniker urllib_plain True ''x@a/b@1.0/v2'' = Inl (InvalidVersion ''1.0'')"
    by (simp add: parser_defs string_op_defs grammar_defs char_class_defs)
  from version_grammar_rejection [OF _ sc ns rv] na
  have "\<exists>e. parse_moniker urllib_plain True ''x@a/b@1.0/v2'' = Inl e \<and> is_parse_error e"
    by (simp add: chr_nl_def)
  with e na show ?thesis by simp
qed

section \<open>Round trip\<close>

text \<open>
  Claim C1, as stated, fails: build_moniker accepts the path \<open>prices\<close> with the version
  \<open>latest\<close> and no namespace; the moniker serializes to \<open>moniker://prices@latest\<close>, which
  parses as the namespace \<open>prices\<close> and the path \<open>latest\<close>.
\<close>

theorem round_trip_fails:
  "build_moniker ''prices'' None (Some ''latest'') None []
     = Inr \<lparr> path = [''prices''], namespace = None, version = Some ''latest'', revision = None, params = [] \<rparr>
   \<and> moniker_to_str \<lparr> path = [''prices''], namespace = None, version = Some ''latest'',
                        revision = None, params = [] \<rparr> = Inr ''moniker://prices@latest''
   \<and> parse_moniker urllib_plain True ''moniker://prices@latest''
     = Inr \<lparr> path = [''latest''], namespace = Some ''prices'', version = None, revision = None, params = [] \<rparr>"
proof -
  have "build_moniker ''prices'' None (Some ''latest'') None []
     = Inr \<lparr> path = [''prices''], namespace = None, version = Some ''latest'', revision = None, params = [] \<rparr>"
    by (simp add: build_moniker_def parse_path_def strip_char_def grammar_defs char_class_defs)
  moreover have "moniker_to_str \<lparr> path = [''prices''], namespace = None, version = Some ''latest'',
                        revision = None, params = [] \<rparr> = Inr ''moniker://prices@latest''"
    by (simp add: moniker_to_str_def)
  moreover have "parse_moniker urllib_plain True ''moniker://prices@latest''
     = Inr \<lparr> path = [''latest''], namespace = Some ''prices'', version = None, revision = None, params = [] \<rparr>"
    by (simp add: parser_defs string_op_defs query_defs grammar_defs char_class_defs)
  ultimately show ?thesis by simp
qed

text \<open>
  Claim C1, amended. For every Moniker \<open>m\<close> that build_moniker returns, that is canonical
  with a version that is not the empty string, and whose revision, if any, has at most
  4300 decimal digits, the serialization of \<open>m\<close> succeeds, and parsing it with validation
  succeeds and returns \<open>m\<close>. Canonical means: every path segment and the namespace, if
  any, satisfy their grammar and hold no newline; the version, if any, is alphanumeric;
  the revision, if any, is not negative; a version comes with a namespace or with at
  least two path segments; with no version and no revision, a path of two or more
  segments does not end in a segment \<open>v\<close> followed by digits; the parameter names are
  distinct; names and values hold no tab, newline or carriage return and none of the
  characters \<open>&\<close>, \<open>#\<close>, \<open>+\<close> and \<open>%\<close>; names hold no \<open>=\<close>; and the last value does not
  end in white space.
\<close>

theorem round_trip_canonical:
  assumes "build_moniker p ns ver rv kwargs = Inr m"
    and "canonical m" and "version m \<noteq> Some []"
    and "revision_in_limit m"
  shows "\<exists>s. moniker_to_str m = Inr s \<and> parse_moniker L True s = Inr m"
  using parse_serialized [OF assms(2) assms(4), of L] assms(3) by simp

theorem round_trip_canonical_witness:
  "build_moniker ''a.b/c'' (Some ''user'') (Some ''latest'') (Some 2) [(''format'', ''json''), (''q'', ''a = b'')]
     = Inr \<lparr> path = [''a.b'', ''c''], namespace = Some ''user'', version = Some ''latest'',
             revision = Some 2, params = [(''format'', ''json''), (''q'', ''a = b'')] \<rparr>
   \<and> canonical \<lparr> path = [''a.b'', ''c''], namespace = Some ''user'', version = Some ''latest'',
             revision = Some 2, params = [(''format'', ''json''), (''q'', ''a = b'')] \<rparr>
   \<and> revision_in_limit \<lparr> path = [''a.b'', ''c''], namespace = Some ''user'', version = Some ''latest'',
             revision = Some 2, params = [(''format'', ''json''), (''q'', ''a = b'')] \<rparr>
   \<and> moniker_to_str \<lparr> path = [''a.b'', ''c''], namespace = Some ''user'', version = Some ''latest'',
             revision = Some 2, params = [(''format'', ''json''), (''q'', ''a = b'')] \<rparr>
     = Inr ''moniker://user@a.b/c@latest/v2?format=json&q=a = b''
   \<and> parse_moniker urllib_plain True ''moniker://user@a.b/c@latest/v2?format=json&q=a = b''
     = Inr \<lparr> path = [''a.b'', ''c''], namespace = Some ''user'', version = Some ''latest'',
             revision = Some 2, params = [(''format'', ''json''), (''q'', ''a = b'')] \<rparr>"
proof -
  let ?m = "\<lparr> path = [''a.b'', ''c''], namespace = Some ''user'', version = Some ''latest'',
             revision = Some 2, params = [(''format'', ''json''), (''q'', ''a = b'')] \<rparr>"
  have b: "build_moniker ''a.b/c'' (Some ''user'') (Some ''latest'') (Some 2)
      [(''format'', ''json''), (''q'', ''a = b'')] = Inr ?m"
    by (simp add: build_moniker_def parse_path_def strip_char_def grammar_defs char_class_defs)
  have c: "canonical ?m"
    by (simp add: canonical_defs grammar_defs char_class_defs is_space_def)
  have v: "version ?m \<noteq> Some []" by simp
  have "\<bar>2\<bar> < (10::int) ^ int_max_str_digits" by (rule small_in_limit) simp
  then have l: "revision_in_limit ?m" by (simp add: revision_in_limit_def)
  have s: "moniker_to_str ?m = Inr ''moniker://user@a.b/c@latest/v2?format=json&q=a = b''"
    unfolding moniker_to_str_in_limit [OF l]
    by (simp add: decimal_def nat_digits.simps digit_char_def)
  from round_trip_canonical [OF b c v l, of urllib_plain] s
  have "parse_moniker urllib_plain True ''moniker://user@a.b/c@latest/v2?format=json&q=a = b'' = Inr ?m"
    by simp
  with b c l s show ?thesis by simp
qed

section \<open>Normalization\<close>

text \<open>
  Claim C9, as stated, fails: \<open>/1a@v\<close> is accepted and normalizes to \<open>moniker://1a@v\<close>,
  which normalize_moniker rejects, \<open>1a\<close> now standing where a namespace is read.
\<close>

theorem normalize_not_idempotent:
  "normalize_moniker urllib_plain ''/1a@v'' = Inr ''moniker://1a@v''
   \<and> normalize_moniker urllib_plain ''moniker://1a@v'' = Inl (InvalidNamespace ''1a'')"
proof -
  have "parse_moniker urllib_plain True ''/1a@v''
     = Inr \<lparr> path = [''1a''], namespace = None, version = Some ''v'', revision = None, params = [] \<rparr>"
    by (simp add: parser_defs string_op_defs query_defs grammar_defs char_class_defs)
  then have "normalize_moniker urllib_plain ''/1a@v'' = Inr ''moniker://1a@v''"
    by (simp add: normalize_moniker_def moniker_to_str_def)
  moreover have "parse_moniker urllib_plain True ''moniker://1a@v'' = Inl (InvalidNamespace ''1a'')"
    by (simp add: parser_defs string_op_defs query_defs grammar_defs char_class_defs)
  then have "normalize_moniker urllib_plain ''moniker://1a@v'' = Inl (InvalidNamespace ''1a'')"
    by (simp add: normalize_moniker_def)
  ultimately show ?thesis by simp
qed

text \<open>
  Claim C9, amended. For every string that parse_moniker accepts with validation and
  whose parsed Moniker is canonical (as under C1, an empty version string allowed),
  the serialization of that Moniker succeeds, normalize_moniker returns it, and
  normalizing it returns it unchanged.
\<close>

theorem normalize_idempotent_canonical:
  assumes "parse_moniker L True s = Inr m" and "canonical m"
  shows "\<exists>t. moniker_to_str m = Inr t
           \<and> normalize_moniker L s = Inr t
           \<and> normalize_moniker L t = Inr t"
proof -
  from parse_moniker_revision [OF assms(1)] have lim: "revision_in_limit m" .
  from parse_serialized [OF assms(2) lim, of L] obtain t where
    t: "moniker_to_str m = Inr t"
    and p: "parse_moniker L True t
               = Inr (m\<lparr> version := (if version m = Some [] then None else version m) \<rparr>)"
    by blast
  from assms(1) t have "normalize_moniker L s = Inr t" by (simp add: normalize_moniker_def)
  moreover from p t have "normalize_moniker L t = Inr t"
    by (simp add: normalize_moniker_def moniker_to_str_empty_version)
  ultimately show ?thesis using t by simp
qed

theorem normalize_idempotent_canonical_witness:
  "parse_moniker urllib_plain True ''user@a.b/c@latest/v02?format=json''
     = Inr \<lparr> path = [''a.b'', ''c''], namespace = Some ''user'', version = Some ''latest'',
             revision = Some 2, params = [(''format'', ''json'')] \<rparr>
   \<and> normalize_moniker urllib_plain ''user@a.b/c@latest/v02?format=json''
     = Inr ''moniker://user@a.b/c@latest/v2?format=json''
   \<and> normalize_moniker urllib_plain ''moniker://user@a.b/c@latest/v2?format=json''
     = Inr ''moniker://user@a.b/c@latest/v2?format=json''"
proof -
  let ?m = "\<lparr> path = [''a.b'', ''c''], namespace = Some ''user'', version = Some ''latest'',
             revision = Some 2, params = [(''format'', ''json'')] \<rparr>"
  have p: "parse_moniker urllib_plain True ''user@a.b/c@latest/v02?format=json'' = Inr ?m"
    by (simp add: parser_defs string_op_defs query_defs grammar_defs char_class_defs)
  have c: "canonical ?m"
    by (simp add: canonical_defs grammar_defs char_class_defs is_space_def)
  have "\<bar>2\<bar> < (10::int) ^ int_max_str_digits" by (rule small_in_limit) simp
  then have l: "revision_in_limit ?m" by (simp add: revision_in_limit_def)
  have s: "moniker_to_str ?m = Inr ''moniker://user@a.b/c@latest/v2?format=json''"
    unfolding moniker_to_str_in_limit [OF l]
    by (simp add: decimal_def nat_digits.simps digit_char_def)
  from normalize_idempotent_canonical [OF p c] p show ?thesis by (simp add: s)
qed

end
